theory Spec2Isabelle
  imports Main "HOL-Library.Char_ord" "HOL-Library.List_Lexorder" "HOL-Library.Multiset"
begin

section \<open>Python values\<close>

text \<open>
  The exceptions that can leave \<^verbatim>\<open>JSONPath.__init__\<close> and \<^verbatim>\<open>JSONPath.parse\<close>.
  A computation that may raise returns \<open>error + 'a\<close>, with \<open>Inl\<close> for the exception.
\<close>

datatype error =
  TypeError | ValueError | IndexError | KeyError | SyntaxError | AttributeError | ExprSyntaxError

text \<open>
  What \<^verbatim>\<open>json.load\<close> produces: \<^verbatim>\<open>None\<close>, \<^verbatim>\<open>bool\<close>, \<^verbatim>\<open>int\<close>, \<^verbatim>\<open>str\<close>, \<^verbatim>\<open>list\<close> and
  \<^verbatim>\<open>dict\<close>. A \<^verbatim>\<open>dict\<close> is the list of its items in iteration order; Python keeps its keys
  distinct (\<open>wf_json\<close> below). Floating-point numbers are left out of the model. A
  \<open>string\<close> is a list of 8-bit characters, read as the code points below 256.
\<close>

datatype json =
  Null | Bool bool | Num int | Str string | Sequence "json list" | Mapping "(string \<times> json) list"

fun wf_json :: "json \<Rightarrow> bool" where
  "wf_json (Sequence xs) = (\<forall>x \<in> set xs. wf_json x)"
| "wf_json (Mapping kvs) = (distinct (map fst kvs) \<and> (\<forall>v \<in> set (map snd kvs). wf_json v))"
| "wf_json _ = True"

section \<open>Strings\<close>

definition SEP :: char where
  "SEP = CHR '';''"

text \<open>\<^verbatim>\<open>s.split(c)\<close> for a separator of one character: never the empty list.\<close>

fun split_on :: "char \<Rightarrow> string \<Rightarrow> string list" where
  "split_on c [] = [[]]"
| "split_on c (x # xs) =
     (if x = c then [] # split_on c xs
      else (case split_on c xs of [] \<Rightarrow> [[x]] | w # ws \<Rightarrow> (x # w) # ws))"

text \<open>The class \<^verbatim>\<open>\d\<close> of the regular expressions, below code point 256.\<close>

definition is_digit :: "char \<Rightarrow> bool" where
  "is_digit c = (c \<in> set ''0123456789'')"

text \<open>
  \<^verbatim>\<open>str.isdigit()\<close>: not empty and every character a digit; below code point 256 these are
  \<^verbatim>\<open>0\<close> to \<^verbatim>\<open>9\<close> and the superscripts two, three and one (U+00B2, U+00B3, U+00B9).
\<close>

definition py_isdigit :: "string \<Rightarrow> bool" where
  "py_isdigit s = (s \<noteq> [] \<and> (\<forall>c \<in> set s. is_digit c \<or> c \<in> {CHR 0xB2, CHR 0xB3, CHR 0xB9}))"

definition digit_val :: "char \<Rightarrow> nat" where
  "digit_val c = of_char c - 48"

definition nat_of_digits :: "string \<Rightarrow> nat" where
  "nat_of_digits s = foldl (\<lambda>a c. 10 * a + digit_val c) 0 s"

text \<open>
  \<^verbatim>\<open>int(s)\<close> on a string of \<^verbatim>\<open>isdigit\<close> characters or of \<^verbatim>\<open>\d\<close> characters: the superscript
  digits are refused with ValueError.
\<close>

definition py_int :: "string \<Rightarrow> error + nat" where
  "py_int s = (if s \<noteq> [] \<and> (\<forall>c \<in> set s. is_digit c) then Inr (nat_of_digits s) else Inl ValueError)"

definition digit_char :: "nat \<Rightarrow> char" where
  "digit_char d = ''0123456789'' ! d"

text \<open>The decimal rendering \<^verbatim>\<open>f"{idx}"\<close> of a list index.\<close>

function str_of_nat :: "nat \<Rightarrow> string" where
  "str_of_nat n = (if n < 10 then [digit_char n] else str_of_nat (n div 10) @ [digit_char (n mod 10)])"
  by pat_completeness auto
termination
  by (relation "measure id") auto

declare str_of_nat.simps [simp del]

definition startswith :: "string \<Rightarrow> string \<Rightarrow> bool" where
  "startswith s p = (take (length p) s = p)"

definition endswith :: "string \<Rightarrow> string \<Rightarrow> bool" where
  "endswith s p = (length p \<le> length s \<and> drop (length s - length p) s = p)"

section \<open>The expression compiler\<close>

text \<open>
  \<^verbatim>\<open>subx\<close> is a class attribute of \<^verbatim>\<open>JSONPath\<close>: one \<^verbatim>\<open>defaultdict(list)\<close> for the whole
  process, with the entries \<^verbatim>\<open>"#Q"\<close> and \<^verbatim>\<open>"#B"\<close>. No code empties it. Every function that
  touches it takes it and returns it.
\<close>

record subx =
  tblQ :: "string list"
  tblB :: "string list"

definition subx0 :: subx where
  "subx0 = \<lparr>tblQ = [], tblB = []\<rparr>"

text \<open>
  The lazy group \<^verbatim>\<open>(.*?)\<close> followed by the closing character \<open>cls\<close>, tried right after
  an opening character: the text up to the next \<open>cls\<close> and the text after it. \<^verbatim>\<open>.\<close> does
  not match a newline, so a newline before the next \<open>cls\<close> is no match.
\<close>

fun find_close :: "char \<Rightarrow> string \<Rightarrow> (string \<times> string) option" where
  "find_close cls [] = None"
| "find_close cls (x # xs) =
     (if x = cls then Some ([], xs)
      else if x = CHR 0x0A then None
      else (case find_close cls xs of None \<Rightarrow> None | Some (m, r) \<Rightarrow> Some (x # m, r)))"

lemma find_close_length: "find_close cls xs = Some (m, r) \<Longrightarrow> length r < length xs"
  by (induction xs arbitrary: m r) (auto split: if_splits option.splits)

text \<open>
  \<^verbatim>\<open>REP_PICKUP_QUOTE.sub(self._f_pickup_quote, expr)\<close> and
  \<^verbatim>\<open>REP_PICKUP_BRACKET.sub(self._f_pickup_bracket, expr)\<close>: the matches of
  \<^verbatim>\<open>opn(.*?)cls\<close> from left to right, none overlapping. Each match appends its group to
  the table \<open>tbl\<close> and is replaced by \<open>pre\<close>, then the table's length before the append.
\<close>

function pickup :: "char \<Rightarrow> char \<Rightarrow> string \<Rightarrow> string list \<Rightarrow> string \<Rightarrow> string \<times> string list" where
  "pickup opn cls pre tbl [] = ([], tbl)"
| "pickup opn cls pre tbl (x # xs) =
     (case (if x = opn then find_close cls xs else None) of
        Some (m, r) \<Rightarrow>
          (let n = length tbl; (out, tbl') = pickup opn cls pre (tbl @ [m]) r
           in (pre @ str_of_nat n @ out, tbl'))
      | None \<Rightarrow>
          (let (out, tbl') = pickup opn cls pre tbl xs in (x # out, tbl')))"
  by pat_completeness auto
termination
  by (relation "measure (\<lambda>(opn, cls, pre, tbl, s). length s)")
     (auto split: if_splits dest: find_close_length)

definition pickup_quote :: "subx \<Rightarrow> string \<Rightarrow> string \<times> subx" where
  "pickup_quote sx expr =
     (let (out, q) = pickup (CHR 0x27) (CHR 0x27) ''#Q'' (tblQ sx) expr in (out, sx\<lparr>tblQ := q\<rparr>))"

definition pickup_bracket :: "subx \<Rightarrow> string \<Rightarrow> string \<times> subx" where
  "pickup_bracket sx expr =
     (let (out, b) = pickup (CHR ''['') (CHR '']'') ''.#B'' (tblB sx) expr in (out, sx\<lparr>tblB := b\<rparr>))"

text \<open>\<^verbatim>\<open>REP_DOUBLEDOT.sub(";..;", expr)\<close>: every two dots in a row, from the left.\<close>

fun doubledot :: "string \<Rightarrow> string" where
  "doubledot (a # b # cs) =
     (if a = CHR ''.'' \<and> b = CHR ''.'' then '';..;'' @ doubledot cs else a # doubledot (b # cs))"
| "doubledot cs = cs"

text \<open>
  \<^verbatim>\<open>REP_DOT.sub(";", expr)\<close>, the pattern \<^verbatim>\<open>(?<!\.)\.(?!\.)\<close>: a dot with no dot before
  it and no dot after it. \<open>prev\<close> says that the character before is a dot.
\<close>

fun dot_sub :: "bool \<Rightarrow> string \<Rightarrow> string" where
  "dot_sub prev [] = []"
| "dot_sub prev (c # cs) =
     (if c = CHR ''.'' \<and> \<not> prev \<and> (case cs of [] \<Rightarrow> True | d # _ \<Rightarrow> d \<noteq> CHR ''.'')
      then SEP # dot_sub True cs
      else c # dot_sub (c = CHR ''.'') cs)"

text \<open>
  \<^verbatim>\<open>REP_PUTBACK_BRACKET.sub(self._f_putback_bracket, expr)\<close> with \<open>t\<close> the letter B and
  \<^verbatim>\<open>REP_PUTBACK_QUOTE.sub(self._f_putback_quote, expr)\<close> with the letter Q: each match of
  \<^verbatim>\<open>#t(\d+)\<close>, the digits greedy, is replaced by \<^verbatim>\<open>tbl[int(digits)]\<close>, which raises
  IndexError out of range. The text put back is not scanned again.
\<close>

function putback :: "char \<Rightarrow> string list \<Rightarrow> string \<Rightarrow> error + string" where
  "putback t tbl [] = Inr []"
| "putback t tbl (c # cs) =
     (if c = CHR ''#'' \<and> (case cs of k # d # _ \<Rightarrow> k = t \<and> is_digit d | _ \<Rightarrow> False)
      then (let ds = takeWhile is_digit (tl cs); rest = dropWhile is_digit (tl cs);
                n = nat_of_digits ds
            in if n < length tbl
               then (case putback t tbl rest of Inl e \<Rightarrow> Inl e | Inr out \<Rightarrow> Inr (tbl ! n @ out))
               else Inl IndexError)
      else (case putback t tbl cs of Inl e \<Rightarrow> Inl e | Inr out \<Rightarrow> Inr (c # out)))"
  by pat_completeness auto
termination
  by (relation "measure (\<lambda>(t, tbl, s). length s)")
     (auto simp: less_Suc_eq_le intro: le_trans [OF length_dropWhile_le])

text \<open>\<^verbatim>\<open>JSONPath._parse_expr\<close>. The tables keep what the pickups appended, also on IndexError.\<close>

definition parse_expr :: "subx \<Rightarrow> string \<Rightarrow> (error + string) \<times> subx" where
  "parse_expr sx expr =
     (let (e1, sx1) = pickup_quote sx expr;
          (e2, sx2) = pickup_bracket sx1 e1;
          e3 = doubledot e2;
          e4 = dot_sub False e3
      in (case putback (CHR ''B'') (tblB sx2) e4 of
            Inl err \<Rightarrow> (Inl err, sx2)
          | Inr e5 \<Rightarrow>
              (case putback (CHR ''Q'') (tblQ sx2) e5 of
                 Inl err \<Rightarrow> (Inl err, sx2)
               | Inr e6 \<Rightarrow> (Inr (if startswith e6 ''$;'' then drop 2 e6 else e6), sx2))))"

text \<open>\<^verbatim>\<open>JSONPath.__init__\<close>: the compiled expression is its list of steps.\<close>

definition compile :: "subx \<Rightarrow> string \<Rightarrow> (error + string list) \<times> subx" where
  "compile sx expr =
     (case parse_expr sx expr of
        (Inl err, sx') \<Rightarrow> (Inl err, sx')
      | (Inr e, sx') \<Rightarrow> (Inr (split_on SEP e), sx'))"

section \<open>Helpers of the evaluator\<close>

definition is_list :: "json \<Rightarrow> bool" where
  "is_list obj = (case obj of Sequence _ \<Rightarrow> True | _ \<Rightarrow> False)"

definition is_dict :: "json \<Rightarrow> bool" where
  "is_dict obj = (case obj of Mapping _ \<Rightarrow> True | _ \<Rightarrow> False)"

definition list_of :: "json \<Rightarrow> json list" where
  "list_of obj = (case obj of Sequence xs \<Rightarrow> xs | _ \<Rightarrow> [])"

definition dict_of :: "json \<Rightarrow> (string \<times> json) list" where
  "dict_of obj = (case obj of Mapping kvs \<Rightarrow> kvs | _ \<Rightarrow> [])"

text \<open>\<^verbatim>\<open>list(enumerate(obj))\<close>.\<close>

definition enumerate_py :: "'a list \<Rightarrow> (nat \<times> 'a) list" where
  "enumerate_py xs = zip [0..<length xs] xs"

text \<open>
  The children \<^verbatim>\<open>JSONPath._traverse\<close> calls \<open>f\<close> on, each with the segment that extends
  the path: the decimal index in a list, the key in a dict, nothing in any other value.
\<close>

definition idx_items :: "(nat \<times> json) list \<Rightarrow> (string \<times> json) list" where
  "idx_items ivs = map (\<lambda>(idx, v). (str_of_nat idx, v)) ivs"

definition traverse_items :: "json \<Rightarrow> (string \<times> json) list" where
  "traverse_items obj =
     (case obj of Sequence xs \<Rightarrow> idx_items (enumerate_py xs) | Mapping kvs \<Rightarrow> kvs | _ \<Rightarrow> [])"

subsection \<open>Dotted lookup\<close>

text \<open>
  \<^verbatim>\<open>JSONPath._getattr\<close>: \<^verbatim>\<open>r.get(k)\<close> along the keys; \<^verbatim>\<open>dict.get\<close> gives \<^verbatim>\<open>None\<close> for an absent
  key, and on a value that is no dict the AttributeError is caught and \<^verbatim>\<open>None\<close> returned.
\<close>

fun getattr_keys :: "json \<Rightarrow> string list \<Rightarrow> json" where
  "getattr_keys r [] = r"
| "getattr_keys r (k # ks) =
     (case r of
        Mapping kvs \<Rightarrow> getattr_keys (case map_of kvs k of None \<Rightarrow> Null | Some v \<Rightarrow> v) ks
      | _ \<Rightarrow> Null)"

definition getattr :: "json \<Rightarrow> string \<Rightarrow> json" where
  "getattr obj path = getattr_keys obj (split_on (CHR ''.'') path)"

subsection \<open>Comparison and sorting\<close>

text \<open>
  Python's \<^verbatim>\<open>==\<close> on these values: \<^verbatim>\<open>bool\<close> is a subclass of \<^verbatim>\<open>int\<close>, lists are equal
  item by item, dicts are equal when they have the same keys with equal values.
\<close>

fun num_of :: "json \<Rightarrow> int option" where
  "num_of (Bool b) = Some (if b then 1 else 0)"
| "num_of (Num n) = Some n"
| "num_of _ = None"

lemma size_item_json:
  "(k, v) \<in> set kvs \<Longrightarrow> size v < Suc (size_list (size_prod (\<lambda>_. 0) size) kvs)"
proof -
  assume "(k, v) \<in> set kvs"
  then have "size_prod (\<lambda>_. 0) size (k, v) \<le> size_list (size_prod (\<lambda>_. 0) size) kvs"
    by (rule size_list_estimation') simp
  then show ?thesis by simp
qed

function py_eq :: "json \<Rightarrow> json \<Rightarrow> bool" where
  "py_eq a b =
     (case (a, b) of
        (Null, Null) \<Rightarrow> True
      | (Str s, Str t) \<Rightarrow> s = t
      | (Sequence xs, Sequence ys) \<Rightarrow> list_all2 (\<lambda>x y. py_eq x y) xs ys
      | (Mapping kvs, Mapping lws) \<Rightarrow>
          length kvs = length lws \<and>
          list_all (\<lambda>(k, v). case map_of lws k of None \<Rightarrow> False | Some w \<Rightarrow> py_eq v w) kvs
      | _ \<Rightarrow> (case (num_of a, num_of b) of (Some m, Some n) \<Rightarrow> m = n | _ \<Rightarrow> False))"
  by pat_completeness auto
termination
  by (relation "measure (\<lambda>(a, b). size a)")
     (auto simp: less_Suc_eq_le size_list_estimation' dest: size_item_json)

declare py_eq.simps [simp del]

text \<open>
  Python's \<^verbatim>\<open><\<close>: numbers by value, strings by code point, lists by their first differing
  items (then by length), TypeError for \<^verbatim>\<open>None\<close>, for a dict and for values of two kinds.
\<close>

function py_lt :: "json \<Rightarrow> json \<Rightarrow> error + bool"
  and py_lt_list :: "json list \<Rightarrow> json list \<Rightarrow> error + bool" where
  "py_lt a b =
     (case (a, b) of
        (Str s, Str t) \<Rightarrow> Inr (s < t)
      | (Sequence xs, Sequence ys) \<Rightarrow> py_lt_list xs ys
      | _ \<Rightarrow> (case (num_of a, num_of b) of (Some m, Some n) \<Rightarrow> Inr (m < n) | _ \<Rightarrow> Inl TypeError))"
| "py_lt_list [] ys = Inr (ys \<noteq> [])"
| "py_lt_list (x # xs) [] = Inr False"
| "py_lt_list (x # xs) (y # ys) = (if py_eq x y then py_lt_list xs ys else py_lt x y)"
  by pat_completeness auto
termination
  by (relation "measure (\<lambda>s. case s of Inl (a, b) \<Rightarrow> size a | Inr (xs, ys) \<Rightarrow> size_list size xs)")
     auto

declare py_lt.simps [simp del]

text \<open>
  \<^verbatim>\<open>list.sort(key=f)\<close>: the keys are compared with \<^verbatim>\<open><\<close> only, equal items keep their
  order, and an exception of a comparison leaves the sort. The model inserts each item
  before the first one that is not smaller, from the right. Which pairs CPython compares is
  not modelled. \<^verbatim>\<open>reverse=True\<close> reverses the list, sorts it and reverses it again.
\<close>

fun py_insort :: "('a \<Rightarrow> json) \<Rightarrow> 'a \<Rightarrow> 'a list \<Rightarrow> error + 'a list" where
  "py_insort f x [] = Inr [x]"
| "py_insort f x (y # ys) =
     (case py_lt (f y) (f x) of
        Inl e \<Rightarrow> Inl e
      | Inr lt \<Rightarrow>
          if lt then (case py_insort f x ys of Inl e \<Rightarrow> Inl e | Inr zs \<Rightarrow> Inr (y # zs))
          else Inr (x # y # ys))"

fun py_sort :: "('a \<Rightarrow> json) \<Rightarrow> 'a list \<Rightarrow> error + 'a list" where
  "py_sort f [] = Inr []"
| "py_sort f (x # xs) = (case py_sort f xs of Inl e \<Rightarrow> Inl e | Inr ys \<Rightarrow> py_insort f x ys)"

definition list_sort :: "('a \<Rightarrow> json) \<Rightarrow> bool \<Rightarrow> 'a list \<Rightarrow> error + 'a list" where
  "list_sort f reverse xs =
     (if reverse then (case py_sort f (rev xs) of Inl e \<Rightarrow> Inl e | Inr ys \<Rightarrow> Inr (rev ys))
      else py_sort f xs)"

text \<open>\<^verbatim>\<open>JSONPath._sorter\<close>, on the keys \<^verbatim>\<open>sortbys.split(",")[::-1]\<close>.\<close>

fun sorter_keys :: "('i \<times> json) list \<Rightarrow> string list \<Rightarrow> error + ('i \<times> json) list" where
  "sorter_keys obj [] = Inr obj"
| "sorter_keys obj (sortby # rest) =
     (case (if startswith sortby ''~''
            then list_sort (\<lambda>t. getattr (snd t) (drop 1 sortby)) True obj
            else list_sort (\<lambda>t. getattr (snd t) sortby) False obj) of
        Inl e \<Rightarrow> Inl e
      | Inr obj' \<Rightarrow> sorter_keys obj' rest)"

definition sorter :: "('i \<times> json) list \<Rightarrow> string \<Rightarrow> error + ('i \<times> json) list" where
  "sorter obj sortbys = sorter_keys obj (rev (split_on (CHR '','') sortbys))"

subsection \<open>Slices\<close>

text \<open>
  \<^verbatim>\<open>REP_SLICE_CONTENT.fullmatch(step)\<close>, the pattern \<^verbatim>\<open>^(-?\d*)?:(-?\d*)?(:-?\d*)?$\<close>:
  two or three parts between colons, each an optional minus sign and digits.
\<close>

definition slice_part :: "string \<Rightarrow> bool" where
  "slice_part p =
     (case p of [] \<Rightarrow> True
      | c # cs \<Rightarrow> if c = CHR ''-'' then list_all is_digit cs else list_all is_digit (c # cs))"

definition slice_match :: "string \<Rightarrow> bool" where
  "slice_match step =
     (let ps = split_on (CHR '':'') step
      in (length ps = 2 \<or> length ps = 3) \<and> list_all slice_part ps)"

text \<open>
  One part read by \<^verbatim>\<open>eval\<close> as Python source: nothing is \<^verbatim>\<open>None\<close>; a lone minus sign and
  a decimal literal with a leading zero that is not zero are a SyntaxError.
\<close>

definition slice_int :: "string \<Rightarrow> error + int option" where
  "slice_int p =
     (if p = [] then Inr None
      else (let neg = (hd p = CHR ''-''); ds = (if neg then tl p else p)
            in if ds = [] \<or> (hd ds = CHR ''0'' \<and> \<not> list_all (\<lambda>c. c = CHR ''0'') ds)
               then Inl SyntaxError
               else Inr (Some (if neg then - int (nat_of_digits ds) else int (nat_of_digits ds)))))"

text \<open>
  The indices a slice \<^verbatim>\<open>[start:stop:step]\<close> selects in a list of length \<open>len\<close>, for a
  step that is not zero: negative bounds count from the end, bounds are clipped, an absent
  bound is the end the step walks from or to.
\<close>

definition slice_bound :: "int \<Rightarrow> int \<Rightarrow> int \<Rightarrow> int" where
  "slice_bound len step v =
     (if v < 0 then max (v + len) (if step < 0 then - 1 else 0)
      else min v (if step < 0 then len - 1 else len))"

definition slice_indices :: "nat \<Rightarrow> int option \<Rightarrow> int option \<Rightarrow> int \<Rightarrow> nat list" where
  "slice_indices len start stop step =
     (let n = int len;
          lo = (case start of None \<Rightarrow> (if step < 0 then n - 1 else 0)
                | Some v \<Rightarrow> slice_bound n step v);
          hi = (case stop of None \<Rightarrow> (if step < 0 then - 1 else n)
                | Some v \<Rightarrow> slice_bound n step v);
          cnt = (if step < 0 then (if hi < lo then (lo - hi - 1) div (- step) + 1 else 0)
                 else (if lo < hi then (hi - lo - 1) div step + 1 else 0))
      in map (\<lambda>k. nat (lo + int k * step)) [0..<nat cnt])"

text \<open>
  \<^verbatim>\<open>eval(f"obj[{step}]")\<close> on \<^verbatim>\<open>obj = list(enumerate(obj))\<close>, for a step that matched
  \<^verbatim>\<open>REP_SLICE_CONTENT\<close>: a step of zero raises ValueError.
\<close>

definition slice_eval :: "'a list \<Rightarrow> string \<Rightarrow> error + (nat \<times> 'a) list" where
  "slice_eval xs step =
     (let ps = split_on (CHR '':'') step;
          rs = map slice_int ps
      in if list_ex (\<lambda>r. r = Inl SyntaxError) rs then Inl SyntaxError
         else (let vs = map (\<lambda>r. case r of Inr v \<Rightarrow> v | Inl _ \<Rightarrow> None) rs;
                   start = vs ! 0; stop = vs ! 1;
                   st = (if length vs = 3 then vs ! 2 else None)
               in if st = Some 0 then Inl ValueError
                  else Inr (map (\<lambda>i. (i, xs ! i))
                             (slice_indices (length xs) start stop
                                (case st of None \<Rightarrow> 1 | Some k \<Rightarrow> k)))))"

subsection \<open>Key lists\<close>

text \<open>
  The class \<^verbatim>\<open>\w\<close> below code point 256: the characters Python calls alphanumeric, and
  the underscore.
\<close>

definition is_word_char :: "char \<Rightarrow> bool" where
  "is_word_char c =
     (let n = (of_char c :: nat)
      in (48 \<le> n \<and> n \<le> 57) \<or> (65 \<le> n \<and> n \<le> 90) \<or> n = 95 \<or> (97 \<le> n \<and> n \<le> 122)
         \<or> n = 170 \<or> n = 178 \<or> n = 179 \<or> n = 181 \<or> n = 185 \<or> n = 186
         \<or> (188 \<le> n \<and> n \<le> 190) \<or> (192 \<le> n \<and> n \<le> 214) \<or> (216 \<le> n \<and> n \<le> 246)
         \<or> 248 \<le> n)"

definition select_item :: "string \<Rightarrow> bool" where
  "select_item s = (s \<noteq> [] \<and> list_all (\<lambda>c. is_word_char c \<or> c = CHR ''.'' \<or> c = CHR 0x27) s)"

text \<open>
  \<^verbatim>\<open>REP_SELECT_CONTENT.fullmatch(step)\<close>, the pattern \<^verbatim>\<open>^([\w.']+)(, ?[\w.']+)+$\<close>: two or
  more items between commas, each after the first with at most one space before it.
\<close>

definition select_match :: "string \<Rightarrow> bool" where
  "select_match step =
     (case split_on (CHR '','') step of
        a # b # rest \<Rightarrow>
          select_item a \<and>
          list_all (\<lambda>s. select_item (if startswith s '' '' then drop 1 s else s)) (b # rest)
      | _ \<Rightarrow> False)"

text \<open>The keys of the select loop that are in the dict, each with its value.\<close>

definition select_items :: "(string \<times> json) list \<Rightarrow> string \<Rightarrow> (string \<times> json) list" where
  "select_items kvs step =
     List.map_filter (\<lambda>k. map_option (Pair k) (map_of kvs k)) (split_on (CHR '','') step)"

subsection \<open>Filter predicates\<close>

text \<open>
  The lookahead \<^verbatim>\<open>(?=<=|>=|==|!=|>|<| in| not| is)\<close> and the lazy group before it:
  the shortest text without a newline that an operator follows.
\<close>

definition filter_ops :: "string list" where
  "filter_ops = [''<='', ''>='', ''=='', ''!='', ''>'', ''<'', '' in'', '' not'', '' is'']"

definition lookahead_op :: "string \<Rightarrow> bool" where
  "lookahead_op s = list_ex (startswith s) filter_ops"

fun find_op :: "string \<Rightarrow> (string \<times> string) option" where
  "find_op [] = (if lookahead_op [] then Some ([], []) else None)"
| "find_op (x # xs) =
     (if lookahead_op (x # xs) then Some ([], x # xs)
      else if x = CHR 0x0A then None
      else (case find_op xs of None \<Rightarrow> None | Some (m, r) \<Rightarrow> Some (x # m, r)))"

lemma find_op_length: "find_op xs = Some (m, r) \<Longrightarrow> length r \<le> length xs"
  by (induction xs arbitrary: m r) (auto split: if_splits option.splits)

text \<open>\<^verbatim>\<open>JSONPath._f_brackets\<close> on a match whose first group is \<open>g\<close>.\<close>

definition f_brackets :: "string \<Rightarrow> string" where
  "f_brackets g =
     ''__obj'' @ concat (map (\<lambda>e. [CHR ''['', CHR 0x22] @ e @ [CHR 0x22, CHR '']''])
                          (split_on (CHR ''.'') g))"

text \<open>
  \<^verbatim>\<open>REP_FILTER_CONTENT.sub(self._f_brackets, step)\<close>. A match of the second alternative,
  \<^verbatim>\<open>len\(@\.(.*?)\)\<close>, has no first group: \<^verbatim>\<open>m.group(1)\<close> is \<^verbatim>\<open>None\<close> and
  \<^verbatim>\<open>None.split\<close> raises AttributeError.
\<close>

function filter_sub :: "string \<Rightarrow> error + string" where
  "filter_sub [] = Inr []"
| "filter_sub (c # cs) =
     (case (if startswith (c # cs) ''@.'' then find_op (drop 2 (c # cs)) else None) of
        Some (g, rest) \<Rightarrow>
          (case filter_sub rest of Inl e \<Rightarrow> Inl e | Inr out \<Rightarrow> Inr (f_brackets g @ out))
      | None \<Rightarrow>
          (case (if startswith (c # cs) ''len(@.''
                 then find_close (CHR '')'') (drop 6 (c # cs)) else None) of
             Some (g, rest) \<Rightarrow> Inl AttributeError
           | None \<Rightarrow> (case filter_sub cs of Inl e \<Rightarrow> Inl e | Inr out \<Rightarrow> Inr (c # out))))"
  by pat_completeness auto
termination
  by (relation "measure length")
     (auto split: if_splits simp: startswith_def dest!: find_op_length)

text \<open>
  \<^verbatim>\<open>JSONPath._filter\<close> up to its call of \<^verbatim>\<open>_trace\<close>: \<open>ev step obj\<close> stands for
  \<^verbatim>\<open>eval(step, None, {"__obj": obj})\<close>, \<open>Inr\<close> the truth value of what it returns and \<open>Inl\<close>
  an exception of class \<^verbatim>\<open>Exception\<close>, which is caught and leaves \<^verbatim>\<open>r = False\<close>.
\<close>

definition filter_r :: "(string \<Rightarrow> json \<Rightarrow> error + bool) \<Rightarrow> string \<Rightarrow> json \<Rightarrow> bool" where
  "filter_r ev step obj = (case ev step obj of Inl err \<Rightarrow> False | Inr r \<Rightarrow> r)"

section \<open>The tree evaluator\<close>

text \<open>\<^verbatim>\<open>obj_ = {}\<close> then \<^verbatim>\<open>obj_[k] = obj.get(k)\<close> for each listed key, in order.\<close>

fun dict_set :: "(string \<times> json) list \<Rightarrow> string \<Rightarrow> json \<Rightarrow> (string \<times> json) list" where
  "dict_set [] k v = [(k, v)]"
| "dict_set ((k', v') # kvs) k v = (if k' = k then (k, v) # kvs else (k', v') # dict_set kvs k v)"

definition dict_get :: "(string \<times> json) list \<Rightarrow> string \<Rightarrow> json" where
  "dict_get kvs k = (case map_of kvs k of None \<Rightarrow> Null | Some v \<Rightarrow> v)"

definition field_extract :: "(string \<times> json) list \<Rightarrow> string list \<Rightarrow> (string \<times> json) list" where
  "field_extract kvs ks = foldl (\<lambda>acc k. dict_set acc k (dict_get kvs k)) [] ks"

lemma size_idx_items: "size_list (\<lambda>p. size (snd p)) (idx_items ivs) = size_list (\<lambda>p. size (snd p)) ivs"
  by (induction ivs) (auto simp: idx_items_def)

lemma size_enumerate_py: "size_list (\<lambda>p. size (snd p)) (enumerate_py xs) = size_list size xs"
proof -
  have "size_list (\<lambda>p. size (snd p)) (zip [n..<n + length xs] xs) = size_list size xs" for n
  proof (induction xs arbitrary: n)
    case Nil
    show ?case by simp
  next
    case (Cons x xs)
    have "[n..<n + length (x # xs)] = n # [Suc n..<Suc n + length xs]"
      by (simp add: upt_rec)
    then show ?case using Cons [of "Suc n"] by simp
  qed
  from this [of 0] show ?thesis by (simp add: enumerate_py_def)
qed

lemma size_dict_items:
  "size_list (\<lambda>p. size (snd p)) kvs \<le> size_list (size_prod (\<lambda>_. 0) size) kvs"
  by (induction kvs) auto

lemma size_traverse_items: "size_list (\<lambda>p. size (snd p)) (traverse_items obj) \<le> size obj"
proof (cases obj)
  case (Sequence xs)
  then show ?thesis by (simp add: traverse_items_def size_idx_items size_enumerate_py)
next
  case (Mapping kvs)
  then show ?thesis
    using size_dict_items [of kvs] by (simp add: traverse_items_def)
qed (simp_all add: traverse_items_def)

text \<open>
  \<^verbatim>\<open>JSONPath._trace\<close>, with \<open>segs\<close> for \<^verbatim>\<open>self.segments\<close> (\<^verbatim>\<open>self.lpath\<close> is its length),
  \<open>rt\<close> for \<^verbatim>\<open>self.result_type\<close> and \<open>res\<close> for \<^verbatim>\<open>self.result\<close>, which is returned.
  \<open>traverse_trace\<close> is \<^verbatim>\<open>_traverse(self._trace, ...)\<close> and every other loop that calls
  \<^verbatim>\<open>_trace\<close> on the values of a list of pairs; \<open>traverse_filter\<close> is
  \<^verbatim>\<open>_traverse(self._filter, ...)\<close>.
\<close>

function
  trace :: "(string \<Rightarrow> json \<Rightarrow> error + bool) \<Rightarrow> string list \<Rightarrow> string \<Rightarrow>
            json \<Rightarrow> nat \<Rightarrow> string \<Rightarrow> json list \<Rightarrow> error + json list"
  and traverse_trace :: "(string \<Rightarrow> json \<Rightarrow> error + bool) \<Rightarrow> string list \<Rightarrow> string \<Rightarrow>
            (string \<times> json) list \<Rightarrow> nat \<Rightarrow> string \<Rightarrow> json list \<Rightarrow> error + json list"
  and traverse_filter :: "(string \<Rightarrow> json \<Rightarrow> error + bool) \<Rightarrow> string list \<Rightarrow> string \<Rightarrow>
            (string \<times> json) list \<Rightarrow> nat \<Rightarrow> string \<Rightarrow> string \<Rightarrow> json list \<Rightarrow> error + json list"
where
  "trace ev segs rt obj i path res =
     (if i \<ge> length segs then
        (if rt = ''VALUE'' then Inr (res @ [obj])
         else if rt = ''PATH'' then Inr (res @ [Str path])
         else Inr res)
      else
        (let step = segs ! i in
         if step = ''*'' then traverse_trace ev segs rt (traverse_items obj) (i + 1) path res
         else if step = ''..'' then
           (case trace ev segs rt obj (i + 1) path res of
              Inl e \<Rightarrow> Inl e
            | Inr res' \<Rightarrow> traverse_trace ev segs rt (traverse_items obj) i path res')
         else if is_list obj \<and> py_isdigit step then
           (case py_int step of
              Inl e \<Rightarrow> Inl e
            | Inr ikey \<Rightarrow>
                if ikey < length (list_of obj)
                then trace ev segs rt (list_of obj ! ikey) (i + 1) (path @ SEP # step) res
                else Inr res)
         else if is_dict obj \<and> map_of (dict_of obj) step \<noteq> None then
           trace ev segs rt (the (map_of (dict_of obj) step)) (i + 1) (path @ SEP # step) res
         else if is_list obj \<and> slice_match step then
           (case slice_eval (list_of obj) step of
              Inl e \<Rightarrow> Inl e
            | Inr vals \<Rightarrow> traverse_trace ev segs rt (idx_items vals) (i + 1) path res)
         else if is_dict obj \<and> select_match step then
           traverse_trace ev segs rt (select_items (dict_of obj) step) (i + 1) path res
         else if startswith step ''?('' \<and> endswith step '')'' then
           (case filter_sub (butlast (drop 2 step)) of
              Inl e \<Rightarrow> Inl e
            | Inr step' \<Rightarrow> traverse_filter ev segs rt (traverse_items obj) (i + 1) path step' res)
         else if startswith step ''/('' \<and> endswith step '')'' then
           (if is_list obj then
              (case sorter (enumerate_py (list_of obj)) (butlast (drop 2 step)) of
                 Inl e \<Rightarrow> Inl e
               | Inr obj' \<Rightarrow> traverse_trace ev segs rt (idx_items obj') (i + 1) path res)
            else if is_dict obj then
              (case sorter (dict_of obj) (butlast (drop 2 step)) of
                 Inl e \<Rightarrow> Inl e
               | Inr obj' \<Rightarrow> traverse_trace ev segs rt obj' (i + 1) path res)
            else Inl ExprSyntaxError)
         else if startswith step ''('' \<and> endswith step '')'' then
           (if is_dict obj then
              trace ev segs rt
                (Mapping (field_extract (dict_of obj) (split_on (CHR '','') (butlast (drop 1 step)))))
                (i + 1) path res
            else Inl ExprSyntaxError)
         else Inr res))"
| "traverse_trace ev segs rt [] i path res = Inr res"
| "traverse_trace ev segs rt ((k, v) # kvs) i path res =
     (case trace ev segs rt v i (path @ SEP # k) res of
        Inl e \<Rightarrow> Inl e
      | Inr res' \<Rightarrow> traverse_trace ev segs rt kvs i path res')"
| "traverse_filter ev segs rt [] i path step res = Inr res"
| "traverse_filter ev segs rt ((k, v) # kvs) i path step res =
     (case (if filter_r ev step v then trace ev segs rt v i (path @ SEP # k) res else Inr res) of
        Inl e \<Rightarrow> Inl e
      | Inr res' \<Rightarrow> traverse_filter ev segs rt kvs i path step res')"
  by pat_completeness auto

termination
proof (relation "inv_image (less_than <*lex*> less_than)
        (\<lambda>s. case s of
           Inl (ev, segs, rt, obj, i, path, res) \<Rightarrow> (length segs - i, 2 * size obj + 1)
         | Inr (Inl (ev, segs, rt, kvs, i, path, res)) \<Rightarrow>
             (length segs - i, 2 * size_list (\<lambda>p. size (snd p)) kvs)
         | Inr (Inr (ev, segs, rt, kvs, i, path, step, res)) \<Rightarrow>
             (length segs - i, 2 * size_list (\<lambda>p. size (snd p)) kvs))", goal_cases)
  case (4 ev segs rt obj i path res step res')
  then show ?case
    using size_traverse_items [of obj] by auto
qed auto

declare trace.simps [simp del]

text \<open>\<^verbatim>\<open>JSONPath.parse\<close>.\<close>

definition parse :: "(string \<Rightarrow> json \<Rightarrow> error + bool) \<Rightarrow> string list \<Rightarrow> json \<Rightarrow> string \<Rightarrow>
    error + json list" where
  "parse ev segs obj result_type =
     (if \<not> (is_list obj \<or> is_dict obj) then Inl TypeError
      else if result_type \<notin> {''VALUE'', ''PATH''} then Inl ValueError
      else trace ev segs result_type obj 0 ''$'' [])"

text \<open>\<^verbatim>\<open>JSONPath(expr).parse(obj, result_type)\<close>, from the tables \<open>sx\<close>.\<close>

definition jsonpath :: "(string \<Rightarrow> json \<Rightarrow> error + bool) \<Rightarrow> subx \<Rightarrow> string \<Rightarrow> json \<Rightarrow> string \<Rightarrow>
    error + json list" where
  "jsonpath ev sx expr obj result_type =
     (case fst (compile sx expr) of
        Inl e \<Rightarrow> Inl e
      | Inr segs \<Rightarrow> parse ev segs obj result_type)"

section \<open>Measures of a document and of a traversal\<close>

text \<open>
  The height of a value (a scalar has height 0), its nodes in the order a depth-first
  walk meets them, and what a node contributes under a key.
\<close>

fun height :: "json \<Rightarrow> nat" where
  "height (Sequence xs) = Suc (foldr max (map height xs) 0)"
| "height (Mapping kvs) = Suc (foldr max (map (\<lambda>(k, v). height v) kvs) 0)"
| "height _ = 0"

fun nodes :: "json \<Rightarrow> json list" where
  "nodes (Sequence xs) = Sequence xs # concat (map nodes xs)"
| "nodes (Mapping kvs) = Mapping kvs # concat (map (\<lambda>(k, v). nodes v) kvs)"
| "nodes obj = [obj]"

definition key_value :: "string \<Rightarrow> json \<Rightarrow> json list" where
  "key_value k obj =
     (case obj of
        Mapping kvs \<Rightarrow> (case map_of kvs k of None \<Rightarrow> [] | Some v \<Rightarrow> [v])
      | _ \<Rightarrow> [])"


text \<open>
  The nesting of \<^verbatim>\<open>_trace\<close> calls below one call of \<^verbatim>\<open>_trace\<close>: the calls the branches
  of \<open>trace\<close> make, each counted one level below its caller. A loop is taken with all
  its iterations; an exception would only cut calls.
\<close>

function
  trace_depth :: "(string \<Rightarrow> json \<Rightarrow> error + bool) \<Rightarrow> string list \<Rightarrow> json \<Rightarrow> nat \<Rightarrow> nat"
  and traverse_depth :: "(string \<Rightarrow> json \<Rightarrow> error + bool) \<Rightarrow> string list \<Rightarrow>
        (string \<times> json) list \<Rightarrow> nat \<Rightarrow> nat"
  and filter_depth :: "(string \<Rightarrow> json \<Rightarrow> error + bool) \<Rightarrow> string list \<Rightarrow>
        (string \<times> json) list \<Rightarrow> nat \<Rightarrow> string \<Rightarrow> nat"
where
  "trace_depth ev segs obj i =
     (if i \<ge> length segs then 0
      else
        (let step = segs ! i in
         if step = ''*'' then traverse_depth ev segs (traverse_items obj) (i + 1)
         else if step = ''..'' then
           max (Suc (trace_depth ev segs obj (i + 1)))
               (traverse_depth ev segs (traverse_items obj) i)
         else if is_list obj \<and> py_isdigit step then
           (case py_int step of
              Inl e \<Rightarrow> 0
            | Inr ikey \<Rightarrow>
                if ikey < length (list_of obj)
                then Suc (trace_depth ev segs (list_of obj ! ikey) (i + 1))
                else 0)
         else if is_dict obj \<and> map_of (dict_of obj) step \<noteq> None then
           Suc (trace_depth ev segs (the (map_of (dict_of obj) step)) (i + 1))
         else if is_list obj \<and> slice_match step then
           (case slice_eval (list_of obj) step of
              Inl e \<Rightarrow> 0
            | Inr vals \<Rightarrow> traverse_depth ev segs (idx_items vals) (i + 1))
         else if is_dict obj \<and> select_match step then
           traverse_depth ev segs (select_items (dict_of obj) step) (i + 1)
         else if startswith step ''?('' \<and> endswith step '')'' then
           (case filter_sub (butlast (drop 2 step)) of
              Inl e \<Rightarrow> 0
            | Inr step' \<Rightarrow> filter_depth ev segs (traverse_items obj) (i + 1) step')
         else if startswith step ''/('' \<and> endswith step '')'' then
           (if is_list obj then
              (case sorter (enumerate_py (list_of obj)) (butlast (drop 2 step)) of
                 Inl e \<Rightarrow> 0
               | Inr obj' \<Rightarrow> traverse_depth ev segs (idx_items obj') (i + 1))
            else if is_dict obj then
              (case sorter (dict_of obj) (butlast (drop 2 step)) of
                 Inl e \<Rightarrow> 0
               | Inr obj' \<Rightarrow> traverse_depth ev segs obj' (i + 1))
            else 0)
         else if startswith step ''('' \<and> endswith step '')'' then
           (if is_dict obj then
              Suc (trace_depth ev segs
                (Mapping (field_extract (dict_of obj) (split_on (CHR '','') (butlast (drop 1 step)))))
                (i + 1))
            else 0)
         else 0))"
| "traverse_depth ev segs [] i = 0"
| "traverse_depth ev segs ((k, v) # kvs) i =
     max (Suc (trace_depth ev segs v i)) (traverse_depth ev segs kvs i)"
| "filter_depth ev segs [] i step = 0"
| "filter_depth ev segs ((k, v) # kvs) i step =
     max (if filter_r ev step v then Suc (trace_depth ev segs v i) else 0)
         (filter_depth ev segs kvs i step)"
  by pat_completeness auto
termination
proof (relation "inv_image (less_than <*lex*> less_than)
        (\<lambda>s. case s of
           Inl (ev, segs, obj, i) \<Rightarrow> (length segs - i, 2 * size obj + 1)
         | Inr (Inl (ev, segs, kvs, i)) \<Rightarrow>
             (length segs - i, 2 * size_list (\<lambda>p. size (snd p)) kvs)
         | Inr (Inr (ev, segs, kvs, i, step)) \<Rightarrow>
             (length segs - i, 2 * size_list (\<lambda>p. size (snd p)) kvs))", goal_cases)
  case (4 ev segs obj i step)
  then show ?case
    using size_traverse_items [of obj] by auto
qed auto

declare trace_depth.simps [simp del]

text \<open>
  An \<^verbatim>\<open>eval\<close> for queries without a filter step: no predicate is ever evaluated, and
  every call raises.
\<close>

definition no_eval :: "string \<Rightarrow> json \<Rightarrow> error + bool" where
  "no_eval step obj = Inl SyntaxError"

text \<open>
  An \<^verbatim>\<open>eval\<close> that knows the one predicate \<^verbatim>\<open>__obj["price"]>5\<close> on integer prices:
  KeyError for a dict without the key, TypeError for any other value.
\<close>

definition eval_price :: "string \<Rightarrow> json \<Rightarrow> error + bool" where
  "eval_price step obj =
     (case obj of
        Mapping kvs \<Rightarrow>
          (case map_of kvs ''price'' of
             None \<Rightarrow> Inl KeyError
           | Some v \<Rightarrow> (case v of Num n \<Rightarrow> Inr (5 < n) | _ \<Rightarrow> Inl TypeError))
      | _ \<Rightarrow> Inl TypeError)"

text \<open>Every value of a list of pairs lies strictly lower than \<open>obj\<close>.\<close>

definition below :: "json \<Rightarrow> ('a \<times> json) list \<Rightarrow> bool" where
  "below obj kvs = (\<forall>(k, v) \<in> set kvs. height v < height obj)"

section \<open>Notions for the claims about sorting\<close>







section \<open>Notions for the claims about the compiler\<close>




section \<open>Notions for the claim about the two result modes\<close>

text \<open>
  Resolving a path against a document: the path is cut at the separator, its first segment
  is the root \<^verbatim>\<open>$\<close>, and every further segment is looked up in the value reached so far,
  as a key in a mapping and as a decimal index in a sequence. A scalar has no children.
\<close>

fun walk_segs :: "json \<Rightarrow> string list \<Rightarrow> json option" where
  "walk_segs obj [] = Some obj"
| "walk_segs obj (s # ss) =
     (case obj of
        Sequence xs \<Rightarrow>
          (case py_int s of
             Inl e \<Rightarrow> None
           | Inr n \<Rightarrow> if n < length xs then walk_segs (xs ! n) ss else None)
      | Mapping kvs \<Rightarrow> (case map_of kvs s of None \<Rightarrow> None | Some v \<Rightarrow> walk_segs v ss)
      | _ \<Rightarrow> None)"

definition walk_path :: "json \<Rightarrow> string \<Rightarrow> json option" where
  "walk_path doc path =
     (case split_on SEP path of
        root # segs \<Rightarrow> if root = ''$'' then walk_segs doc segs else None
      | [] \<Rightarrow> None)"

text \<open>No key of the document, at any depth, contains the separator.\<close>

fun sep_free :: "json \<Rightarrow> bool" where
  "sep_free (Sequence xs) = (\<forall>x \<in> set xs. sep_free x)"
| "sep_free (Mapping kvs) = (\<forall>(k, v) \<in> set kvs. SEP \<notin> set k \<and> sep_free v)"
| "sep_free _ = True"

text \<open>The test of the field-extractor branch on a compiled step.\<close>

definition extractor_form :: "string \<Rightarrow> bool" where
  "extractor_form step = (startswith step ''('' \<and> endswith step '')'')"

text \<open>
  \<open>child_at obj k v\<close>: the value \<open>v\<close> is the child of \<open>obj\<close> that the segment \<open>k\<close> names.
\<close>

definition child_at :: "json \<Rightarrow> string \<Rightarrow> json \<Rightarrow> bool" where
  "child_at obj k v =
     (case obj of
        Sequence xs \<Rightarrow> (\<exists>n. py_int k = Inr n \<and> n < length xs \<and> v = xs ! n)
      | Mapping kvs \<Rightarrow> (k, v) \<in> set kvs
      | _ \<Rightarrow> False)"

text \<open>
  What holds of the current path and the current value all along a traversal of a document
  with unique keys free of the separator: the path resolves to the value.
\<close>

definition path_inv :: "json \<Rightarrow> string \<Rightarrow> json \<Rightarrow> bool" where
  "path_inv doc path obj = (wf_json obj \<and> sep_free obj \<and> walk_path doc path = Some obj)"

section \<open>Facts about the string functions\<close>

lemma split_on_no_sep: "c \<notin> set s \<Longrightarrow> split_on c s = [s]"
  by (induction s) auto

lemma split_on_not_Nil: "split_on c s \<noteq> []"
  by (induction s) (auto split: list.splits)

lemma split_on_Cons: "x \<noteq> c \<Longrightarrow> \<exists>w ws. split_on c (x # xs) = (x # w) # ws"
  using split_on_not_Nil [of c xs] by (cases "split_on c xs") auto

lemma is_digit_not_colon: "is_digit c \<Longrightarrow> c \<noteq> CHR '':''"
  by (auto simp: is_digit_def)

section \<open>Facts about sorting, slices and dicts\<close>

lemma py_insort_mset: "py_insort f x ys = Inr zs \<Longrightarrow> mset zs = add_mset x (mset ys)"
  by (induction ys arbitrary: zs) (auto split: sum.splits if_splits)

lemma py_sort_mset: "py_sort f xs = Inr ys \<Longrightarrow> mset ys = mset xs"
  by (induction xs arbitrary: ys) (auto split: sum.splits dest: py_insort_mset)

lemma list_sort_mset: "list_sort f r xs = Inr ys \<Longrightarrow> mset ys = mset xs"
  by (auto simp: list_sort_def split: if_splits sum.splits dest: py_sort_mset)

lemma sorter_keys_mset: "sorter_keys obj ks = Inr obj' \<Longrightarrow> mset obj' = mset obj"
  by (induction ks arbitrary: obj) (auto split: sum.splits if_splits dest: list_sort_mset)

lemma sorter_mset: "sorter obj sortbys = Inr obj' \<Longrightarrow> mset obj' = mset obj"
  unfolding sorter_def by (rule sorter_keys_mset)

lemma sorter_set: "sorter obj sortbys = Inr obj' \<Longrightarrow> set obj' = set obj"
  by (drule sorter_mset) (rule mset_eq_setD)

lemma in_enumerate_py: "(i, v) \<in> set (enumerate_py xs) \<longleftrightarrow> i < length xs \<and> v = xs ! i"
proof
  assume "(i, v) \<in> set (enumerate_py xs)"
  then show "i < length xs \<and> v = xs ! i"
    by (auto simp: enumerate_py_def in_set_zip)
next
  assume "i < length xs \<and> v = xs ! i"
  then have "[0..<length xs] ! i = i \<and> xs ! i = v \<and> i < length [0..<length xs] \<and> i < length xs"
    by simp
  then show "(i, v) \<in> set (enumerate_py xs)"
    unfolding enumerate_py_def in_set_zip fst_conv snd_conv by (rule exI)
qed

lemma slice_bound_range:
  "0 \<le> n \<Longrightarrow> (if step < 0 then - 1 \<le> slice_bound n step v \<and> slice_bound n step v \<le> n - 1
             else 0 \<le> slice_bound n step v \<and> slice_bound n step v \<le> n)"
  by (auto simp: slice_bound_def)

lemma slice_indices_range:
  assumes "step \<noteq> 0" "i \<in> set (slice_indices len start stop step)"
  shows "i < len"
proof -
  define n where "n = int len"
  define lo where "lo = (case start of None \<Rightarrow> (if step < 0 then n - 1 else 0)
                | Some v \<Rightarrow> slice_bound n step v)"
  define hi where "hi = (case stop of None \<Rightarrow> (if step < 0 then - 1 else n)
                | Some v \<Rightarrow> slice_bound n step v)"
  define cnt where "cnt = (if step < 0 then (if hi < lo then (lo - hi - 1) div (- step) + 1 else 0)
                 else (if lo < hi then (hi - lo - 1) div step + 1 else 0))"
  have n0: "0 \<le> n" by (simp add: n_def)
  have lo: "if step < 0 then - 1 \<le> lo \<and> lo \<le> n - 1 else 0 \<le> lo \<and> lo \<le> n"
    using slice_bound_range [OF n0, of step] n0 by (auto simp: lo_def split: option.splits)
  have hi: "if step < 0 then - 1 \<le> hi \<and> hi \<le> n - 1 else 0 \<le> hi \<and> hi \<le> n"
    using slice_bound_range [OF n0, of step] n0 by (auto simp: hi_def split: option.splits)
  have "slice_indices len start stop step = map (\<lambda>k. nat (lo + int k * step)) [0..<nat cnt]"
    unfolding slice_indices_def Let_def cnt_def hi_def lo_def n_def ..
  with assms(2) obtain k where k: "k < nat cnt" "i = nat (lo + int k * step)"
    by auto
  show ?thesis
  proof (cases "step < 0")
    case True
    with k(1) have lt: "hi < lo" and kc: "int k \<le> (lo - hi - 1) div (- step)"
      by (auto simp: cnt_def split: if_splits)
    have "int k * (- step) \<le> ((lo - hi - 1) div (- step)) * (- step)"
      using kc True by (simp add: mult_right_mono)
    also have "\<dots> \<le> lo - hi - 1"
      using div_mult_mod_eq [of "lo - hi - 1" "- step"] pos_mod_sign [of "- step" "lo - hi - 1"] True
      by linarith
    finally have "lo + int k * step \<ge> hi + 1" by (simp add: algebra_simps)
    moreover have "lo + int k * step \<le> lo"
      using True by (simp add: mult_nonneg_nonpos)
    ultimately have "0 \<le> lo + int k * step" "lo + int k * step < n"
      using lo hi True by auto
    then show ?thesis by (simp add: k(2) n_def)
  next
    case False
    with assms(1) have pos: "0 < step" by simp
    with k(1) have lt: "lo < hi" and kc: "int k \<le> (hi - lo - 1) div step"
      by (auto simp: cnt_def split: if_splits)
    have "int k * step \<le> ((hi - lo - 1) div step) * step"
      using kc pos by (simp add: mult_right_mono)
    also have "\<dots> \<le> hi - lo - 1"
      using div_mult_mod_eq [of "hi - lo - 1" step] pos_mod_sign [of step "hi - lo - 1"] pos
      by linarith
    finally have "lo + int k * step \<le> hi - 1" by (simp add: algebra_simps)
    moreover have "lo \<le> lo + int k * step"
      using pos by simp
    ultimately have "0 \<le> lo + int k * step" "lo + int k * step < n"
      using lo hi False by auto
    then show ?thesis by (simp add: k(2) n_def)
  qed
qed

lemma slice_eval_sound:
  assumes "slice_eval xs step = Inr vals" "(i, v) \<in> set vals"
  shows "i < length xs \<and> v = xs ! i"
proof -
  define vs where "vs = map (\<lambda>r. case r of Inr v \<Rightarrow> v | Inl _ \<Rightarrow> None)
                          (map slice_int (split_on (CHR '':'') step))"
  define st where "st = (if length vs = 3 then vs ! 2 else None)"
  define c where "c = (case st of None \<Rightarrow> 1 | Some k \<Rightarrow> k)"
  from assms(1) have st: "st \<noteq> Some 0"
    and vals: "vals = map (\<lambda>i. (i, xs ! i)) (slice_indices (length xs) (vs ! 0) (vs ! 1) c)"
    unfolding slice_eval_def Let_def vs_def [symmetric] st_def [symmetric] c_def [symmetric]
    by (auto split: if_splits)
  from st have c: "c \<noteq> 0" by (cases st) (auto simp: c_def)
  from assms(2) have "i \<in> set (slice_indices (length xs) (vs ! 0) (vs ! 1) c)" "v = xs ! i"
    by (auto simp: vals)
  with slice_indices_range [OF c] show ?thesis by blast
qed

lemma select_items_sound: "(k, v) \<in> set (select_items kvs step) \<Longrightarrow> map_of kvs k = Some v"
  by (auto simp: select_items_def List.map_filter_def)

lemma dict_set_entries:
  "(a, b) \<in> set (dict_set kvs k v) \<Longrightarrow> (a, b) = (k, v) \<or> (a, b) \<in> set kvs"
  by (induction kvs) (auto split: if_splits)

lemma field_extract_entries:
  assumes "(a, b) \<in> set (field_extract kvs ks)"
  shows "b = dict_get kvs a"
proof -
  have "(\<forall>(a, b) \<in> set acc. b = dict_get kvs a) \<Longrightarrow>
        (\<forall>(a, b) \<in> set (foldl (\<lambda>acc k. dict_set acc k (dict_get kvs k)) acc ks). b = dict_get kvs a)"
    for acc
  proof (induction ks arbitrary: acc)
    case Nil
    then show ?case by simp
  next
    case (Cons k ks)
    have "\<forall>(a, b) \<in> set (dict_set acc k (dict_get kvs k)). b = dict_get kvs a"
      using Cons.prems by (auto dest!: dict_set_entries)
    from Cons.IH [OF this] show ?case by simp
  qed
  from this [of "[]"] assms show ?thesis by (auto simp: field_extract_def)
qed

lemma dict_get_cases: "dict_get kvs k = Null \<or> (k, dict_get kvs k) \<in> set kvs"
  by (auto simp: dict_get_def split: option.splits dest: map_of_SomeD)

section \<open>Facts about heights and the depth of a traversal\<close>

lemma foldr_max_ge: "x \<in> set xs \<Longrightarrow> x \<le> foldr max xs (0::nat)"
  by (induction xs) (auto simp: max_def)

lemma foldr_max_le: "(\<And>x. x \<in> set xs \<Longrightarrow> x \<le> b) \<Longrightarrow> foldr max xs (0::nat) \<le> b"
  by (induction xs) auto

lemma height_elem: "v \<in> set xs \<Longrightarrow> height v < height (Sequence xs)"
  using foldr_max_ge [of "height v" "map height xs"] by (simp add: less_Suc_eq_le)

lemma height_entry: "(k, v) \<in> set kvs \<Longrightarrow> height v < height (Mapping kvs)"
  using foldr_max_ge [of "height v" "map (\<lambda>(k, v). height v) kvs"]
  by (force simp: less_Suc_eq_le)

lemma in_idx_items: "(k, v) \<in> set (idx_items ivs) \<Longrightarrow> \<exists>i. (i, v) \<in> set ivs \<and> k = str_of_nat i"
  by (auto simp: idx_items_def)

lemma below_enumerate: "is_list obj \<Longrightarrow> below obj (enumerate_py (list_of obj))"
  by (cases obj) (auto simp: below_def is_list_def list_of_def in_enumerate_py simp del: height.simps intro: height_elem)

lemma below_dict: "is_dict obj \<Longrightarrow> below obj (dict_of obj)"
  by (cases obj) (auto simp: below_def is_dict_def dict_of_def simp del: height.simps intro: height_entry)

lemma below_idx_items: "below obj ivs \<Longrightarrow> below obj (idx_items ivs)"
  by (auto simp: below_def dest!: in_idx_items)

lemma below_traverse_items: "below obj (traverse_items obj)"
  using below_idx_items [OF below_enumerate, of obj] below_dict [of obj]
  by (cases obj) (auto simp: traverse_items_def below_def is_list_def is_dict_def list_of_def dict_of_def)

lemma below_slice: "is_list obj \<Longrightarrow> slice_eval (list_of obj) step = Inr vals \<Longrightarrow> below obj vals"
  using below_enumerate [of obj]
  by (auto simp: below_def in_enumerate_py dest!: slice_eval_sound)

lemma below_select: "is_dict obj \<Longrightarrow> below obj (select_items (dict_of obj) step)"
  using below_dict [of obj]
  by (auto simp: below_def dest!: select_items_sound map_of_SomeD)

lemma below_sorter: "below obj kvs \<Longrightarrow> sorter kvs s = Inr kvs' \<Longrightarrow> below obj kvs'"
  by (auto simp: below_def dest!: sorter_set)

lemma height_index: "is_list obj \<Longrightarrow> n < length (list_of obj) \<Longrightarrow> height (list_of obj ! n) < height obj"
  by (cases obj) (auto simp: is_list_def list_of_def simp del: height.simps intro: height_elem)

lemma height_key: "is_dict obj \<Longrightarrow> map_of (dict_of obj) k = Some v \<Longrightarrow> height v < height obj"
  by (cases obj) (auto simp: is_dict_def dict_of_def simp del: height.simps dest!: map_of_SomeD intro: height_entry)

lemma height_field_extract:
  assumes "is_dict obj"
  shows "height (Mapping (field_extract (dict_of obj) ks)) \<le> height obj"
proof -
  from assms obtain kvs where obj: "obj = Mapping kvs" by (cases obj) (auto simp: is_dict_def)
  have "h \<le> foldr max (map (\<lambda>(k, v). height v) kvs) 0"
    if "h \<in> set (map (\<lambda>(k, v). height v) (field_extract kvs ks))" for h
  proof -
    from that obtain a b where ab: "(a, b) \<in> set (field_extract kvs ks)" "h = height b" by auto
    from field_extract_entries [OF ab(1)] dict_get_cases [of kvs a]
    have "b = Null \<or> (a, b) \<in> set kvs" by auto
    then show ?thesis
    proof
      assume "b = Null" then show ?thesis by (simp add: ab)
    next
      assume "(a, b) \<in> set kvs"
      then have "height b \<in> set (map (\<lambda>(k, v). height v) kvs)" by force
      then show ?thesis unfolding ab by (rule foldr_max_ge)
    qed
  qed
  then have "foldr max (map (\<lambda>(k, v). height v) (field_extract kvs ks)) 0
               \<le> foldr max (map (\<lambda>(k, v). height v) kvs) 0"
    by (rule foldr_max_le)
  then show ?thesis by (simp add: obj dict_of_def)
qed


lemma step_cases [case_names star dots index key slice select filter sorter extractor none]:
  fixes x :: string and obj :: json
  obtains "x = ''*''"
  | "x \<noteq> ''*''" "x = ''..''"
  | "x \<noteq> ''*''" "x \<noteq> ''..''" "is_list obj \<and> py_isdigit x"
  | "x \<noteq> ''*''" "x \<noteq> ''..''" "\<not> (is_list obj \<and> py_isdigit x)"
    "is_dict obj \<and> map_of (dict_of obj) x \<noteq> None"
  | "x \<noteq> ''*''" "x \<noteq> ''..''" "\<not> (is_list obj \<and> py_isdigit x)"
    "\<not> (is_dict obj \<and> map_of (dict_of obj) x \<noteq> None)" "is_list obj \<and> slice_match x"
  | "x \<noteq> ''*''" "x \<noteq> ''..''" "\<not> (is_list obj \<and> py_isdigit x)"
    "\<not> (is_dict obj \<and> map_of (dict_of obj) x \<noteq> None)" "\<not> (is_list obj \<and> slice_match x)"
    "is_dict obj \<and> select_match x"
  | "x \<noteq> ''*''" "x \<noteq> ''..''" "\<not> (is_list obj \<and> py_isdigit x)"
    "\<not> (is_dict obj \<and> map_of (dict_of obj) x \<noteq> None)" "\<not> (is_list obj \<and> slice_match x)"
    "\<not> (is_dict obj \<and> select_match x)" "startswith x ''?('' \<and> endswith x '')''"
  | "x \<noteq> ''*''" "x \<noteq> ''..''" "\<not> (is_list obj \<and> py_isdigit x)"
    "\<not> (is_dict obj \<and> map_of (dict_of obj) x \<noteq> None)" "\<not> (is_list obj \<and> slice_match x)"
    "\<not> (is_dict obj \<and> select_match x)" "\<not> (startswith x ''?('' \<and> endswith x '')'')"
    "startswith x ''/('' \<and> endswith x '')''"
  | "x \<noteq> ''*''" "x \<noteq> ''..''" "\<not> (is_list obj \<and> py_isdigit x)"
    "\<not> (is_dict obj \<and> map_of (dict_of obj) x \<noteq> None)" "\<not> (is_list obj \<and> slice_match x)"
    "\<not> (is_dict obj \<and> select_match x)" "\<not> (startswith x ''?('' \<and> endswith x '')'')"
    "\<not> (startswith x ''/('' \<and> endswith x '')'')" "startswith x ''('' \<and> endswith x '')''"
  | "x \<noteq> ''*''" "x \<noteq> ''..''" "\<not> (is_list obj \<and> py_isdigit x)"
    "\<not> (is_dict obj \<and> map_of (dict_of obj) x \<noteq> None)" "\<not> (is_list obj \<and> slice_match x)"
    "\<not> (is_dict obj \<and> select_match x)" "\<not> (startswith x ''?('' \<and> endswith x '')'')"
    "\<not> (startswith x ''/('' \<and> endswith x '')'')" "\<not> (startswith x ''('' \<and> endswith x '')'')"
  by blast

lemma depth_bound:
  "trace_depth ev segs obj i \<le> length segs - i + height obj"
  "(\<forall>(k, v) \<in> set kvs. Suc (length segs - j + height v) \<le> B) \<Longrightarrow>
     traverse_depth ev segs kvs j \<le> B"
  "(\<forall>(k, v) \<in> set kvs'. Suc (length segs - j' + height v) \<le> B') \<Longrightarrow>
     filter_depth ev segs kvs' j' step \<le> B'"
proof (induction ev segs obj i and ev segs kvs j and ev segs kvs' j' step
       arbitrary: and B and B' rule: trace_depth_traverse_depth_filter_depth.induct)
  case (1 ev segs obj i)
  show ?case
  proof (cases "length segs \<le> i")
    case True
    then show ?thesis by (subst trace_depth.simps) simp
  next
    case nle: False
    define x where "x = segs ! i"
    note IH = "1.IH" [OF nle x_def]
    have L: "Suc (length segs - (i + 1)) = length segs - i" using nle by simp
    have next_level: "\<forall>(k, v) \<in> set kvs. Suc (length segs - (i + 1) + height v) \<le> length segs - i + height obj"
      if "below obj kvs" for kvs :: "(string \<times> json) list"
      using that L by (auto simp: below_def)
    show ?thesis
    proof (cases rule: step_cases [where x = x and obj = obj])
      case star
      have "traverse_depth ev segs (traverse_items obj) (i + 1) \<le> length segs - i + height obj"
        by (rule IH(1) [OF star next_level [OF below_traverse_items]])
      then show ?thesis
        by (subst trace_depth.simps) (use nle star in \<open>auto simp: Let_def x_def [symmetric]\<close>)
    next
      case dots
      have "trace_depth ev segs obj (i + 1) \<le> length segs - (i + 1) + height obj"
        by (rule IH(2) [OF dots])
      moreover have "traverse_depth ev segs (traverse_items obj) i \<le> length segs - i + height obj"
        by (rule IH(3) [OF dots]) (use below_traverse_items [of obj] in \<open>auto simp: below_def\<close>)
      ultimately show ?thesis
        using L by (subst trace_depth.simps) (use nle dots in \<open>auto simp: Let_def x_def [symmetric]\<close>)
    next
      case index
      show ?thesis
      proof (cases "py_int x")
        case (Inl e)
        then show ?thesis
          by (subst trace_depth.simps) (use nle index in \<open>auto simp: Let_def x_def [symmetric]\<close>)
      next
        case (Inr b)
        show ?thesis
        proof (cases "b < length (list_of obj)")
          case True
          have "trace_depth ev segs (list_of obj ! b) (i + 1)
                  \<le> length segs - (i + 1) + height (list_of obj ! b)"
            by (rule IH(4) [OF index Inr True])
          with height_index [of obj b] index True L show ?thesis
            by (subst trace_depth.simps) (use nle index Inr in \<open>auto simp: Let_def x_def [symmetric]\<close>)
        next
          case False
          then show ?thesis
            by (subst trace_depth.simps) (use nle index Inr in \<open>auto simp: Let_def x_def [symmetric]\<close>)
        qed
      qed
    next
      case key
      then obtain v where v: "map_of (dict_of obj) x = Some v" by auto
      have "trace_depth ev segs (the (map_of (dict_of obj) x)) (i + 1)
              \<le> length segs - (i + 1) + height (the (map_of (dict_of obj) x))"
        by (rule IH(5) [OF key])
      with height_key [of obj x v] key v L show ?thesis
        by (subst trace_depth.simps) (use nle key in \<open>auto simp: Let_def x_def [symmetric]\<close>)
    next
      case slice
      show ?thesis
      proof (cases "slice_eval (list_of obj) x")
        case (Inl e)
        then show ?thesis
          by (subst trace_depth.simps) (use nle slice in \<open>auto simp: Let_def x_def [symmetric]\<close>)
      next
        case (Inr vals)
        have "below obj (idx_items vals)"
          using slice Inr by (auto intro: below_idx_items below_slice)
        from IH(6) [OF slice Inr next_level [OF this]] Inr show ?thesis
          by (subst trace_depth.simps) (use nle slice in \<open>auto simp: Let_def x_def [symmetric]\<close>)
      qed
    next
      case select
      have "below obj (select_items (dict_of obj) x)"
        using select by (auto intro: below_select)
      from IH(7) [OF select next_level [OF this]] show ?thesis
        by (subst trace_depth.simps) (use nle select in \<open>auto simp: Let_def x_def [symmetric]\<close>)
    next
      case filter
      show ?thesis
      proof (cases "filter_sub (butlast (drop 2 x))")
        case (Inl e)
        then show ?thesis
          by (subst trace_depth.simps) (use nle filter in \<open>auto simp: Let_def x_def [symmetric]\<close>)
      next
        case (Inr step')
        from IH(8) [OF filter Inr next_level [OF below_traverse_items]] Inr show ?thesis
          by (subst trace_depth.simps) (use nle filter in \<open>auto simp: Let_def x_def [symmetric]\<close>)
      qed
    next
      case sorter
      show ?thesis
      proof (cases "is_list obj")
        case True
        show ?thesis
        proof (cases "sorter (enumerate_py (list_of obj)) (butlast (drop 2 x))")
          case (Inl e)
          then show ?thesis
            by (subst trace_depth.simps) (use nle sorter True in \<open>auto simp: Let_def x_def [symmetric]\<close>)
        next
          case (Inr obj')
          have "below obj (idx_items obj')"
            using True Inr by (auto intro: below_idx_items below_sorter below_enumerate)
          from IH(9) [OF sorter True Inr next_level [OF this]] Inr show ?thesis
            by (subst trace_depth.simps) (use nle sorter True in \<open>auto simp: Let_def x_def [symmetric]\<close>)
        qed
      next
        case nl: False
        show ?thesis
        proof (cases "is_dict obj")
          case True
          show ?thesis
          proof (cases "sorter (dict_of obj) (butlast (drop 2 x))")
            case (Inl e)
            then show ?thesis
              by (subst trace_depth.simps) (use nle sorter nl True in \<open>auto simp: Let_def x_def [symmetric]\<close>)
          next
            case (Inr obj')
            have "below obj obj'"
              using True Inr by (auto intro: below_sorter below_dict)
            from IH(10) [OF sorter nl True Inr next_level [OF this]] Inr show ?thesis
              by (subst trace_depth.simps) (use nle sorter nl True in \<open>auto simp: Let_def x_def [symmetric]\<close>)
          qed
        next
          case False
          then show ?thesis
            by (subst trace_depth.simps) (use nle sorter nl in \<open>auto simp: Let_def x_def [symmetric]\<close>)
        qed
      qed
    next
      case extractor
      show ?thesis
      proof (cases "is_dict obj")
        case True
        define obj' where "obj' = Mapping (field_extract (dict_of obj) (split_on (CHR '','') (butlast (drop 1 x))))"
        have "trace_depth ev segs obj' (i + 1) \<le> length segs - (i + 1) + height obj'"
          unfolding obj'_def by (rule IH(11) [OF extractor True])
        moreover have "height obj' \<le> height obj"
          unfolding obj'_def by (rule height_field_extract [OF True])
        ultimately have "Suc (trace_depth ev segs obj' (i + 1)) \<le> length segs - i + height obj"
          using L by linarith
        then show ?thesis
          unfolding obj'_def
          by (subst trace_depth.simps)
             (use nle extractor True in \<open>auto simp: Let_def x_def [symmetric]\<close>)
      next
        case False
        then show ?thesis
          by (subst trace_depth.simps) (use nle extractor in \<open>auto simp: Let_def x_def [symmetric]\<close>)
      qed
    next
      case none
      then show ?thesis
        by (subst trace_depth.simps) (use nle  in \<open>auto simp: Let_def x_def [symmetric]\<close>)
    qed
  qed
next
  case (2 ev segs i)
  show ?case by simp
next
  case (3 ev segs k v kvs i)
  from "3.prems" have "Suc (length segs - i + height v) \<le> B" by simp
  with "3.IH"(1) have "Suc (trace_depth ev segs v i) \<le> B" by (meson Suc_le_mono order_trans)
  moreover from "3.prems" have "traverse_depth ev segs kvs i \<le> B"
    by (intro "3.IH"(2)) simp
  ultimately show ?case by simp
next
  case (4 ev segs i step)
  show ?case by simp
next
  case (5 ev segs k v kvs i step)
  from "5.prems" have "Suc (length segs - i + height v) \<le> B'" by simp
  with "5.IH"(1) have "filter_r ev step v \<Longrightarrow> Suc (trace_depth ev segs v i) \<le> B'"
    by (meson Suc_le_mono order_trans)
  moreover from "5.prems" have "filter_depth ev segs kvs i step \<le> B'"
    by (intro "5.IH"(2)) simp
  ultimately show ?case by simp
qed
section \<open>Facts about recursive descent\<close>

lemma map_snd_idx_items_enumerate: "map snd (idx_items (enumerate_py xs)) = xs"
proof -
  have "map snd (idx_items ivs) = map snd ivs" for ivs :: "(nat \<times> json) list"
    by (induction ivs) (auto simp: idx_items_def)
  then show ?thesis by (simp add: enumerate_py_def)
qed

lemma name_step:
  "trace ev [''..'', ''name''] ''VALUE'' obj (Suc 0) path res = Inr (res @ key_value ''name'' obj)"
proof -
  have n1: "\<not> py_isdigit ''name''" by (simp add: py_isdigit_def is_digit_def)
  have n2: "\<not> slice_match ''name''" by code_simp
  have n3: "\<not> select_match ''name''" by code_simp
  have n4: "\<not> startswith ''name'' ''?(''" "\<not> startswith ''name'' ''/(''" "\<not> startswith ''name'' ''(''"
    by (simp_all add: startswith_def)
  have store: "trace ev [''..'', ''name''] ''VALUE'' v (Suc (Suc 0)) p r = Inr (r @ [v])" for v p r
    by (subst trace.simps) simp
  show ?thesis
  proof (cases "is_dict obj \<and> map_of (dict_of obj) ''name'' \<noteq> None")
    case True
    then obtain kvs v where "obj = Mapping kvs" "map_of kvs ''name'' = Some v"
      by (cases obj) (auto simp: is_dict_def dict_of_def)
    then show ?thesis
      using n1 n2 n3 n4
      by (subst trace.simps) (simp add: Let_def is_dict_def dict_of_def key_value_def store)
  next
    case False
    then have "key_value ''name'' obj = []"
      by (cases obj) (auto simp: key_value_def is_dict_def dict_of_def)
    with False show ?thesis
      using n1 n2 n3 n4
      by (subst trace.simps) (auto simp: Let_def)
  qed
qed

lemma traverse_trace_collect:
  assumes "\<And>k v path res. (k, v) \<in> set kvs \<Longrightarrow> trace ev segs rt v i path res = Inr (res @ f v)"
  shows "traverse_trace ev segs rt kvs i path res = Inr (res @ concat (map (\<lambda>(k, v). f v) kvs))"
  using assms
proof (induction kvs arbitrary: res)
  case Nil
  show ?case by simp
next
  case (Cons kv kvs)
  obtain k v where kv: "kv = (k, v)" by (cases kv)
  have "trace ev segs rt v i (path @ SEP # k) res = Inr (res @ f v)"
    by (rule Cons.prems [of k]) (simp add: kv)
  moreover have "traverse_trace ev segs rt kvs i path (res @ f v)
      = Inr ((res @ f v) @ concat (map (\<lambda>(k, v). f v) kvs))"
  proof (rule Cons.IH)
    fix k' v' p r
    assume "(k', v') \<in> set kvs"
    then show "trace ev segs rt v' i p r = Inr (r @ f v')"
      by (intro Cons.prems [of k']) simp
  qed
  ultimately show ?case by (simp add: kv)
qed

lemma concat_map_nodes:
  "concat (map f (concat (map nodes xs))) = concat (map (\<lambda>x. concat (map f (nodes x))) xs)"
  by (induction xs) auto

lemma dots_name:
  "trace ev [''..'', ''name''] ''VALUE'' obj 0 path res
     = Inr (res @ concat (map (key_value ''name'') (nodes obj)))"
proof (induction obj arbitrary: path res)
  case (Sequence xs)
  have "traverse_trace ev [''..'', ''name''] ''VALUE'' (traverse_items (Sequence xs)) 0 path r
      = Inr (r @ concat (map (\<lambda>(k, v). concat (map (key_value ''name'') (nodes v)))
                           (traverse_items (Sequence xs))))" for r
  proof (rule traverse_trace_collect)
    fix k v p r'
    assume "(k, v) \<in> set (traverse_items (Sequence xs))"
    then have "v \<in> set xs"
      by (auto simp: traverse_items_def in_enumerate_py dest!: in_idx_items)
    then show "trace ev [''..'', ''name''] ''VALUE'' v 0 p r'
        = Inr (r' @ concat (map (key_value ''name'') (nodes v)))"
      by (rule Sequence.IH)
  qed
  moreover have "concat (map (\<lambda>(k, v). concat (map (key_value ''name'') (nodes v)))
                           (traverse_items (Sequence xs)))
      = concat (map (\<lambda>x. concat (map (key_value ''name'') (nodes x))) xs)"
  proof -
    have "map (\<lambda>(k, v). concat (map (key_value ''name'') (nodes v))) (traverse_items (Sequence xs))
        = map (\<lambda>x. concat (map (key_value ''name'') (nodes x))) (map snd (traverse_items (Sequence xs)))"
      by (simp add: case_prod_unfold comp_def)
    then show ?thesis
      by (simp add: traverse_items_def map_snd_idx_items_enumerate)
  qed
  ultimately show ?case
    by (subst trace.simps) (simp add: Let_def name_step key_value_def concat_map_nodes)
next
  case (Mapping kvs)
  have "traverse_trace ev [''..'', ''name''] ''VALUE'' kvs 0 path r
      = Inr (r @ concat (map (\<lambda>(k, v). concat (map (key_value ''name'') (nodes v))) kvs))" for r
  proof (rule traverse_trace_collect)
    fix k v p r'
    assume "(k, v) \<in> set kvs"
    then show "trace ev [''..'', ''name''] ''VALUE'' v 0 p r'
        = Inr (r' @ concat (map (key_value ''name'') (nodes v)))"
      by (intro Mapping.IH [of "(k, v)"]) auto
  qed
  moreover have "concat (map (key_value ''name'') (concat (map (\<lambda>(k, v). nodes v) kvs)))
      = concat (map (\<lambda>(k, v). concat (map (key_value ''name'') (nodes v))) kvs)"
    by (induction kvs) auto
  ultimately show ?case
    by (subst trace.simps) (simp add: Let_def name_step traverse_items_def key_value_def)
qed (subst trace.simps, simp add: Let_def name_step traverse_items_def key_value_def)+

lemma key_value_length: "length (key_value k obj) \<le> 1"
  by (auto simp: key_value_def split: json.splits option.splits)

lemma length_concat_le: "(\<And>x. x \<in> set xs \<Longrightarrow> length (f x) \<le> 1) \<Longrightarrow> length (concat (map f xs)) \<le> length xs"
proof (induction xs)
  case Nil
  show ?case by simp
next
  case (Cons x xs)
  have "length (f x) \<le> 1" by (rule Cons.prems) simp
  moreover have "length (concat (map f xs)) \<le> length xs"
    by (rule Cons.IH) (rule Cons.prems, simp)
  ultimately show ?case by simp
qed

section \<open>Facts about the sorter\<close>























section \<open>Facts about the compiler\<close>

subsection \<open>Decimal numerals\<close>

lemma digit_char_is_digit: "d < 10 \<Longrightarrow> is_digit (digit_char d)"
proof -
  assume "d < 10"
  then have "d \<in> {0, 1, 2, 3, 4, 5, 6, 7, 8, 9}" by auto
  then show ?thesis by (auto simp: digit_char_def is_digit_def)
qed

lemma digit_val_digit_char: "d < 10 \<Longrightarrow> digit_val (digit_char d) = d"
proof -
  assume "d < 10"
  then have "d \<in> {0, 1, 2, 3, 4, 5, 6, 7, 8, 9}" by auto
  then show ?thesis by (auto simp: digit_char_def digit_val_def)
qed

lemma str_of_nat_digits: "list_all is_digit (str_of_nat n)"
proof (induction n rule: str_of_nat.induct)
  case (1 n)
  show ?case
  proof (cases "n < 10")
    case True
    then show ?thesis by (subst str_of_nat.simps) (simp add: digit_char_is_digit)
  next
    case False
    with 1 show ?thesis by (subst str_of_nat.simps) (simp add: digit_char_is_digit)
  qed
qed

lemma str_of_nat_not_Nil: "str_of_nat n \<noteq> []"
  by (subst str_of_nat.simps) simp

lemma nat_of_digits_snoc: "nat_of_digits (s @ [c]) = 10 * nat_of_digits s + digit_val c"
  by (simp add: nat_of_digits_def)

lemma nat_of_digits_str_of_nat: "nat_of_digits (str_of_nat n) = n"
proof (induction n rule: str_of_nat.induct)
  case (1 n)
  show ?case
  proof (cases "n < 10")
    case True
    then show ?thesis
      by (subst str_of_nat.simps) (simp add: nat_of_digits_def digit_val_digit_char)
  next
    case False
    with 1 show ?thesis
      by (subst str_of_nat.simps) (simp add: nat_of_digits_snoc digit_val_digit_char)
  qed
qed


subsection \<open>The pickup passes\<close>





subsection \<open>The two dot passes\<close>













subsection \<open>The putback passes\<close>






subsection \<open>Splitting into steps\<close>



subsection \<open>Restoring a bracket group\<close>



section \<open>Facts about the two result modes\<close>

text \<open>
  The run in \<^verbatim>\<open>VALUE\<close> mode and the run in \<^verbatim>\<open>PATH\<close> mode take the same branches: they
  differ only in what the store branch appends. A relation \<open>rel\<close> between the two result
  lists that the store branch preserves is therefore preserved by a traversal, by a
  filter traversal and by every branch of \<^verbatim>\<open>_trace\<close>.
\<close>

text \<open>A filter traversal is a traversal of the children that pass the predicate.\<close>

lemma traverse_filter_eq:
  "traverse_filter ev segs rt kvs i path step res =
   traverse_trace ev segs rt (filter (\<lambda>(k, v). ev step v = Inr True) kvs) i path res"
proof (induction kvs arbitrary: res)
  case Nil
  show ?case by simp
next
  case (Cons kv kvs)
  obtain k v where kv: "kv = (k, v)" by (cases kv)
  show ?case
  proof (cases "ev step v = Inr True")
    case True
    then have "filter_r ev step v" by (simp add: filter_r_def)
    with True show ?thesis
      by (simp add: kv Cons.IH split: sum.splits)
  next
    case False
    then have "\<not> filter_r ev step v"
      by (auto simp: filter_r_def split: sum.splits)
    with False show ?thesis
      by (simp add: kv Cons.IH)
  qed
qed

lemma traverse_sim:
  assumes "\<And>k v rv rp. (k, v) \<in> set kvs \<Longrightarrow> rel rv rp \<Longrightarrow>
             rel_sum (=) rel (trace ev segs ''VALUE'' v j (path @ SEP # k) rv)
                             (trace ev segs ''PATH'' v j (path @ SEP # k) rp)"
    and "rel rv rp"
  shows "rel_sum (=) rel (traverse_trace ev segs ''VALUE'' kvs j path rv)
                         (traverse_trace ev segs ''PATH'' kvs j path rp)"
  using assms
proof (induction kvs arbitrary: rv rp)
  case Nil
  then show ?case by simp
next
  case (Cons kv kvs)
  obtain k v where kv: "kv = (k, v)" by (cases kv)
  have h: "rel_sum (=) rel (trace ev segs ''VALUE'' v j (path @ SEP # k) rv)
                          (trace ev segs ''PATH'' v j (path @ SEP # k) rp)"
    by (rule Cons.prems(1)) (simp_all add: kv Cons.prems(2))
  show ?case
  proof (cases "trace ev segs ''VALUE'' v j (path @ SEP # k) rv")
    case (Inl e)
    with h show ?thesis by (cases "trace ev segs ''PATH'' v j (path @ SEP # k) rp") (simp_all add: kv)
  next
    case (Inr rv')
    with h obtain rp' where rp': "trace ev segs ''PATH'' v j (path @ SEP # k) rp = Inr rp'"
      and r': "rel rv' rp'"
      by (cases "trace ev segs ''PATH'' v j (path @ SEP # k) rp") simp_all
    have "rel_sum (=) rel (traverse_trace ev segs ''VALUE'' kvs j path rv')
                         (traverse_trace ev segs ''PATH'' kvs j path rp')"
    proof (rule Cons.IH)
      show "rel rv' rp'" by (rule r')
    next
      fix k' v' a b
      assume "(k', v') \<in> set kvs" "rel a b"
      then show "rel_sum (=) rel (trace ev segs ''VALUE'' v' j (path @ SEP # k') a)
                                 (trace ev segs ''PATH'' v' j (path @ SEP # k') b)"
        by (intro Cons.prems(1)) simp_all
    qed
    with Inr rp' show ?thesis by (simp add: kv)
  qed
qed

lemma filter_sim:
  assumes "\<And>k v rv rp. (k, v) \<in> set kvs \<Longrightarrow> rel rv rp \<Longrightarrow>
             rel_sum (=) rel (trace ev segs ''VALUE'' v j (path @ SEP # k) rv)
                             (trace ev segs ''PATH'' v j (path @ SEP # k) rp)"
    and "rel rv rp"
  shows "rel_sum (=) rel (traverse_filter ev segs ''VALUE'' kvs j path step rv)
                         (traverse_filter ev segs ''PATH'' kvs j path step rp)"
proof -
  have sub: "\<And>k v rv rp. (k, v) \<in> set (filter (\<lambda>(k, v). ev step v = Inr True) kvs) \<Longrightarrow> rel rv rp \<Longrightarrow>
             rel_sum (=) rel (trace ev segs ''VALUE'' v j (path @ SEP # k) rv)
                             (trace ev segs ''PATH'' v j (path @ SEP # k) rp)"
    using assms(1) by simp
  show ?thesis
    unfolding traverse_filter_eq by (rule traverse_sim [OF sub assms(2)])
qed

lemma py_int_str_of_nat: "py_int (str_of_nat n) = Inr n"
  using str_of_nat_digits [of n]
  by (simp add: py_int_def str_of_nat_not_Nil nat_of_digits_str_of_nat list_all_iff)

lemma child_traverse_items: "(k, v) \<in> set (traverse_items obj) \<Longrightarrow> child_at obj k v"
  by (cases obj)
     (auto simp: traverse_items_def child_at_def in_enumerate_py py_int_str_of_nat
           dest!: in_idx_items)

lemma child_index:
  "is_list obj \<Longrightarrow> py_int x = Inr b \<Longrightarrow> b < length (list_of obj) \<Longrightarrow>
   child_at obj x (list_of obj ! b)"
  by (cases obj) (auto simp: is_list_def list_of_def child_at_def)

lemma child_key:
  "is_dict obj \<Longrightarrow> map_of (dict_of obj) x \<noteq> None \<Longrightarrow> child_at obj x (the (map_of (dict_of obj) x))"
  by (cases obj) (auto simp: is_dict_def dict_of_def child_at_def dest: map_of_SomeD)

lemma child_idx_items:
  "is_list obj \<Longrightarrow> (\<And>n v. (n, v) \<in> set ivs \<Longrightarrow> n < length (list_of obj) \<and> v = list_of obj ! n) \<Longrightarrow>
   (k, v) \<in> set (idx_items ivs) \<Longrightarrow> child_at obj k v"
  by (cases obj)
     (auto simp: is_list_def list_of_def child_at_def py_int_str_of_nat dest!: in_idx_items)

lemma child_slice:
  assumes "is_list obj" "slice_eval (list_of obj) x = Inr vals" "(k, v) \<in> set (idx_items vals)"
  shows "child_at obj k v"
  by (rule child_idx_items [OF assms(1) _ assms(3)]) (rule slice_eval_sound [OF assms(2)])

lemma child_sorted_list:
  assumes "is_list obj" "sorter (enumerate_py (list_of obj)) s = Inr obj'" "(k, v) \<in> set (idx_items obj')"
  shows "child_at obj k v"
proof (rule child_idx_items [OF assms(1) _ assms(3)])
  fix n v assume "(n, v) \<in> set obj'"
  then have "(n, v) \<in> set (enumerate_py (list_of obj))"
    using sorter_set [OF assms(2)] by simp
  then show "n < length (list_of obj) \<and> v = list_of obj ! n"
    by (simp add: in_enumerate_py)
qed

lemma child_sorted_dict:
  assumes "is_dict obj" "sorter (dict_of obj) s = Inr obj'" "(k, v) \<in> set obj'"
  shows "child_at obj k v"
  using assms sorter_set [OF assms(2)]
  by (cases obj) (auto simp: is_dict_def dict_of_def child_at_def)

lemma child_select:
  "is_dict obj \<Longrightarrow> (k, v) \<in> set (select_items (dict_of obj) x) \<Longrightarrow> child_at obj k v"
  by (cases obj)
     (auto simp: is_dict_def dict_of_def child_at_def dest!: select_items_sound map_of_SomeD)

lemma trace_sim_step:
  assumes store: "\<And>rv rp. rel rv rp \<Longrightarrow> rel (rv @ [obj]) (rp @ [Str path])"
    and nxt: "\<And>k v rv rp. i < length segs \<Longrightarrow> child_at obj k v \<Longrightarrow> rel rv rp \<Longrightarrow>
               rel_sum (=) rel (trace ev segs ''VALUE'' v (i + 1) (path @ SEP # k) rv)
                               (trace ev segs ''PATH'' v (i + 1) (path @ SEP # k) rp)"
    and same: "\<And>rv rp. i < length segs \<Longrightarrow> rel rv rp \<Longrightarrow>
               rel_sum (=) rel (trace ev segs ''VALUE'' obj (i + 1) path rv)
                               (trace ev segs ''PATH'' obj (i + 1) path rp)"
    and kids: "\<And>k v rv rp. i < length segs \<Longrightarrow> (k, v) \<in> set (traverse_items obj) \<Longrightarrow> rel rv rp \<Longrightarrow>
               rel_sum (=) rel (trace ev segs ''VALUE'' v i (path @ SEP # k) rv)
                               (trace ev segs ''PATH'' v i (path @ SEP # k) rp)"
    and extr: "\<And>rv rp. i < length segs \<Longrightarrow> is_dict obj \<Longrightarrow> extractor_form (segs ! i) \<Longrightarrow> rel rv rp \<Longrightarrow>
               rel_sum (=) rel
                 (trace ev segs ''VALUE''
                    (Mapping (field_extract (dict_of obj)
                       (split_on (CHR '','') (butlast (drop 1 (segs ! i)))))) (i + 1) path rv)
                 (trace ev segs ''PATH''
                    (Mapping (field_extract (dict_of obj)
                       (split_on (CHR '','') (butlast (drop 1 (segs ! i)))))) (i + 1) path rp)"
    and r: "rel rv rp"
  shows "rel_sum (=) rel (trace ev segs ''VALUE'' obj i path rv)
                         (trace ev segs ''PATH'' obj i path rp)"
proof (cases "length segs \<le> i")
  case True
  have "trace ev segs ''VALUE'' obj i path rv = Inr (rv @ [obj])"
    using True by (subst trace.simps) simp
  moreover have "trace ev segs ''PATH'' obj i path rp = Inr (rp @ [Str path])"
    using True by (subst trace.simps) simp
  ultimately show ?thesis using store [OF r] by simp
next
  case nle: False
  then have lt: "i < length segs" by simp
  note nxt = nxt [OF lt] and same = same [OF lt] and kids = kids [OF lt] and extr = extr [OF lt]
  define x where "x = segs ! i"
  show ?thesis
  proof (cases rule: step_cases [where x = x and obj = obj])
    case star
    have eq: "trace ev segs rt obj i path r0
        = traverse_trace ev segs rt (traverse_items obj) (i + 1) path r0" for rt r0
      by (subst trace.simps) (use nle star in \<open>auto simp: Let_def x_def [symmetric]\<close>)
    show ?thesis
      unfolding eq by (rule traverse_sim [OF nxt r]) (rule child_traverse_items)
  next
    case dots
    have eq: "trace ev segs rt obj i path r0
        = (case trace ev segs rt obj (i + 1) path r0 of
             Inl e \<Rightarrow> Inl e
           | Inr r1 \<Rightarrow> traverse_trace ev segs rt (traverse_items obj) i path r1)" for rt r0
      by (subst trace.simps) (use nle dots in \<open>auto simp: Let_def x_def [symmetric]\<close>)
    note h = same [OF r]
    show ?thesis
    proof (cases "trace ev segs ''VALUE'' obj (i + 1) path rv")
      case (Inl e)
      with h show ?thesis
        unfolding eq by (cases "trace ev segs ''PATH'' obj (i + 1) path rp") simp_all
    next
      case (Inr rv')
      with h obtain rp' where rp': "trace ev segs ''PATH'' obj (i + 1) path rp = Inr rp'"
        and r': "rel rv' rp'"
        by (cases "trace ev segs ''PATH'' obj (i + 1) path rp") simp_all
      have "rel_sum (=) rel (traverse_trace ev segs ''VALUE'' (traverse_items obj) i path rv')
                            (traverse_trace ev segs ''PATH'' (traverse_items obj) i path rp')"
        by (rule traverse_sim [OF kids r'])
      then show ?thesis unfolding eq using Inr rp' by simp
    qed
  next
    case index
    show ?thesis
    proof (cases "py_int x")
      case (Inl e)
      have eq: "trace ev segs rt obj i path r0 = Inl e" for rt r0
        by (subst trace.simps) (use nle index Inl in \<open>auto simp: Let_def x_def [symmetric]\<close>)
      show ?thesis unfolding eq by simp
    next
      case (Inr b)
      show ?thesis
      proof (cases "b < length (list_of obj)")
        case True
        have eq: "trace ev segs rt obj i path r0
            = trace ev segs rt (list_of obj ! b) (i + 1) (path @ SEP # x) r0" for rt r0
          by (subst trace.simps) (use nle index Inr True in \<open>auto simp: Let_def x_def [symmetric]\<close>)
        show ?thesis
          unfolding eq by (rule nxt [OF _ r]) (use index Inr True in \<open>auto intro: child_index\<close>)
      next
        case False
        have eq: "trace ev segs rt obj i path r0 = Inr r0" for rt r0
          by (subst trace.simps) (use nle index Inr False in \<open>auto simp: Let_def x_def [symmetric]\<close>)
        show ?thesis unfolding eq using r by simp
      qed
    qed
  next
    case key
    have eq: "trace ev segs rt obj i path r0
        = trace ev segs rt (the (map_of (dict_of obj) x)) (i + 1) (path @ SEP # x) r0" for rt r0
      by (subst trace.simps) (use nle key in \<open>auto simp: Let_def x_def [symmetric]\<close>)
    show ?thesis
      unfolding eq by (rule nxt [OF _ r]) (use key in \<open>auto intro: child_key\<close>)
  next
    case slice
    show ?thesis
    proof (cases "slice_eval (list_of obj) x")
      case (Inl e)
      have eq: "trace ev segs rt obj i path r0 = Inl e" for rt r0
        by (subst trace.simps) (use nle slice Inl in \<open>auto simp: Let_def x_def [symmetric]\<close>)
      show ?thesis unfolding eq by simp
    next
      case (Inr vals)
      have eq: "trace ev segs rt obj i path r0
          = traverse_trace ev segs rt (idx_items vals) (i + 1) path r0" for rt r0
        by (subst trace.simps) (use nle slice Inr in \<open>auto simp: Let_def x_def [symmetric]\<close>)
      show ?thesis
        unfolding eq
        by (rule traverse_sim [OF nxt r]) (use slice Inr in \<open>auto intro: child_slice\<close>)
    qed
  next
    case select
    have eq: "trace ev segs rt obj i path r0
        = traverse_trace ev segs rt (select_items (dict_of obj) x) (i + 1) path r0" for rt r0
      by (subst trace.simps) (use nle select in \<open>auto simp: Let_def x_def [symmetric]\<close>)
    show ?thesis
      unfolding eq
      by (rule traverse_sim [OF nxt r]) (use select in \<open>auto intro: child_select\<close>)
  next
    case filter
    show ?thesis
    proof (cases "filter_sub (butlast (drop 2 x))")
      case (Inl e)
      have eq: "trace ev segs rt obj i path r0 = Inl e" for rt r0
        by (subst trace.simps) (use nle filter Inl in \<open>auto simp: Let_def x_def [symmetric]\<close>)
      show ?thesis unfolding eq by simp
    next
      case (Inr q)
      have eq: "trace ev segs rt obj i path r0
          = traverse_filter ev segs rt (traverse_items obj) (i + 1) path q r0" for rt r0
        by (subst trace.simps) (use nle filter Inr in \<open>auto simp: Let_def x_def [symmetric]\<close>)
      show ?thesis
        unfolding eq by (rule filter_sim [OF nxt r]) (rule child_traverse_items)
    qed
  next
    case sorter
    show ?thesis
    proof (cases "is_list obj")
      case True
      show ?thesis
      proof (cases "sorter (enumerate_py (list_of obj)) (butlast (drop 2 x))")
        case (Inl e)
        have eq: "trace ev segs rt obj i path r0 = Inl e" for rt r0
          by (subst trace.simps) (use nle sorter True Inl in \<open>auto simp: Let_def x_def [symmetric]\<close>)
        show ?thesis unfolding eq by simp
      next
        case (Inr obj')
        have eq: "trace ev segs rt obj i path r0
            = traverse_trace ev segs rt (idx_items obj') (i + 1) path r0" for rt r0
          by (subst trace.simps) (use nle sorter True Inr in \<open>auto simp: Let_def x_def [symmetric]\<close>)
        show ?thesis
          unfolding eq
          by (rule traverse_sim [OF nxt r]) (use True Inr in \<open>auto intro: child_sorted_list\<close>)
      qed
    next
      case nl: False
      show ?thesis
      proof (cases "is_dict obj")
        case True
        show ?thesis
        proof (cases "sorter (dict_of obj) (butlast (drop 2 x))")
          case (Inl e)
          have eq: "trace ev segs rt obj i path r0 = Inl e" for rt r0
            by (subst trace.simps)
               (use nle sorter nl True Inl in \<open>auto simp: Let_def x_def [symmetric]\<close>)
          show ?thesis unfolding eq by simp
        next
          case (Inr obj')
          have eq: "trace ev segs rt obj i path r0
              = traverse_trace ev segs rt obj' (i + 1) path r0" for rt r0
            by (subst trace.simps)
               (use nle sorter nl True Inr in \<open>auto simp: Let_def x_def [symmetric]\<close>)
          show ?thesis
            unfolding eq
            by (rule traverse_sim [OF nxt r]) (use True Inr in \<open>auto intro: child_sorted_dict\<close>)
        qed
      next
        case False
        have eq: "trace ev segs rt obj i path r0 = Inl ExprSyntaxError" for rt r0
          by (subst trace.simps) (use nle sorter nl False in \<open>auto simp: Let_def x_def [symmetric]\<close>)
        show ?thesis unfolding eq by simp
      qed
    qed
  next
    case extractor
    show ?thesis
    proof (cases "is_dict obj")
      case True
      have eq: "trace ev segs rt obj i path r0
          = trace ev segs rt
              (Mapping (field_extract (dict_of obj) (split_on (CHR '','') (butlast (drop 1 x)))))
              (i + 1) path r0" for rt r0
        by (subst trace.simps) (use nle extractor True in \<open>auto simp: Let_def x_def [symmetric]\<close>)
      have "extractor_form (segs ! i)"
        using extractor by (simp add: extractor_form_def x_def)
      from extr [OF True this r] show ?thesis
        unfolding eq x_def .
    next
      case False
      have eq: "trace ev segs rt obj i path r0 = Inl ExprSyntaxError" for rt r0
        by (subst trace.simps) (use nle extractor False in \<open>auto simp: Let_def x_def [symmetric]\<close>)
      show ?thesis unfolding eq by simp
    qed
  next
    case none
    have eq: "trace ev segs rt obj i path r0 = Inr r0" for rt r0
      by (subst trace.simps) (use nle none in \<open>auto simp: Let_def x_def [symmetric]\<close>)
    show ?thesis unfolding eq using r by simp
  qed
qed

text \<open>
  The simulation, by induction on the steps left and on the size of the value; \<open>okp\<close> is an
  invariant of the current path and value that descending to a child preserves.
\<close>

lemma size_list_member: "x \<in> set xs \<Longrightarrow> f x < size_list f xs"
  by (induction xs) auto

lemma size_child: "(k, v) \<in> set (traverse_items obj) \<Longrightarrow> size v < size obj"
  using size_list_member [of "(k, v)" "traverse_items obj" "\<lambda>p. size (snd p)"]
    size_traverse_items [of obj]
  by simp

lemma trace_sim:
  assumes store: "\<And>path obj rv rp. okp path obj \<Longrightarrow> rel rv rp \<Longrightarrow> rel (rv @ [obj]) (rp @ [Str path])"
    and descend: "\<And>path obj k v. okp path obj \<Longrightarrow> child_at obj k v \<Longrightarrow> okp (path @ SEP # k) v"
    and extr: "\<And>path obj i. i < length segs \<Longrightarrow> extractor_form (segs ! i) \<Longrightarrow> is_dict obj \<Longrightarrow>
                 okp path obj \<Longrightarrow>
                 okp path (Mapping (field_extract (dict_of obj)
                                      (split_on (CHR '','') (butlast (drop 1 (segs ! i))))))"
  shows "okp path obj \<Longrightarrow> rel rv rp \<Longrightarrow>
         rel_sum (=) rel (trace ev segs ''VALUE'' obj i path rv)
                         (trace ev segs ''PATH'' obj i path rp)"
proof (induction "length segs - i" arbitrary: i obj path rv rp rule: less_induct)
  case less
  note outer = less.hyps
  show ?case using less.prems
  proof (induction "size obj" arbitrary: obj path rv rp rule: less_induct)
    case inner: less
    note iv = inner.prems(1)
    show ?case
    proof (rule trace_sim_step)
      show "rel rv rp" by (rule inner.prems(2))
    next
      fix a b assume "rel a b"
      then show "rel (a @ [obj]) (b @ [Str path])" by (rule store [OF iv])
    next
      fix k v a b
      assume "i < length segs" "child_at obj k v" "rel a b"
      then show "rel_sum (=) rel (trace ev segs ''VALUE'' v (i + 1) (path @ SEP # k) a)
                                 (trace ev segs ''PATH'' v (i + 1) (path @ SEP # k) b)"
        by (intro outer descend [OF iv]) simp_all
    next
      fix a b
      assume "i < length segs" "rel a b"
      then show "rel_sum (=) rel (trace ev segs ''VALUE'' obj (i + 1) path a)
                                 (trace ev segs ''PATH'' obj (i + 1) path b)"
        by (intro outer iv) simp_all
    next
      fix k v a b
      assume "i < length segs" and kv: "(k, v) \<in> set (traverse_items obj)" and "rel a b"
      then show "rel_sum (=) rel (trace ev segs ''VALUE'' v i (path @ SEP # k) a)
                                 (trace ev segs ''PATH'' v i (path @ SEP # k) b)"
        by (intro inner.hyps size_child [OF kv] descend [OF iv] child_traverse_items)
    next
      fix a b
      assume "i < length segs" "is_dict obj" "extractor_form (segs ! i)" "rel a b"
      then show "rel_sum (=) rel
                 (trace ev segs ''VALUE''
                    (Mapping (field_extract (dict_of obj)
                       (split_on (CHR '','') (butlast (drop 1 (segs ! i)))))) (i + 1) path a)
                 (trace ev segs ''PATH''
                    (Mapping (field_extract (dict_of obj)
                       (split_on (CHR '','') (butlast (drop 1 (segs ! i)))))) (i + 1) path b)"
        by (intro outer extr iv) simp_all
    qed
  qed
qed

text \<open>Resolving a path that was extended by one segment.\<close>

lemma split_on_snoc: "c \<notin> set k \<Longrightarrow> split_on c (p @ c # k) = split_on c p @ [k]"
proof (induction p)
  case Nil
  then show ?case by (simp add: split_on_no_sep)
next
  case (Cons a p)
  then show ?case
    using split_on_not_Nil [of c p] by (cases "split_on c p") auto
qed

lemma walk_segs_append:
  "walk_segs obj (ps @ qs) = (case walk_segs obj ps of None \<Rightarrow> None | Some v \<Rightarrow> walk_segs v qs)"
  by (induction obj ps rule: walk_segs.induct) (auto split: json.splits sum.splits option.splits)

lemma walk_path_snoc:
  assumes "walk_path doc p = Some obj" "SEP \<notin> set k"
  shows "walk_path doc (p @ SEP # k) = walk_segs obj [k]"
proof -
  from assms(1) obtain segs where s: "split_on SEP p = ''$'' # segs" "walk_segs doc segs = Some obj"
    by (auto simp: walk_path_def split: list.splits if_splits)
  then show ?thesis
    using split_on_snoc [OF assms(2), of p]
    by (simp add: walk_path_def walk_segs_append)
qed

lemma sep_not_digit: "\<not> is_digit SEP"
  by (simp add: is_digit_def SEP_def)

lemma py_int_sep:
  assumes "py_int k = Inr n"
  shows "SEP \<notin> set k"
proof
  assume "SEP \<in> set k"
  moreover from assms have "\<forall>c \<in> set k. is_digit c"
    by (simp add: py_int_def split: if_splits)
  ultimately show False using sep_not_digit by blast
qed

lemma path_inv_child:
  assumes "path_inv doc path obj" "child_at obj k v"
  shows "path_inv doc (path @ SEP # k) v"
proof (cases obj)
  case (Sequence xs)
  with assms(2) obtain n where n: "py_int k = Inr n" "n < length xs" "v = xs ! n"
    by (auto simp: child_at_def)
  then have "v \<in> set xs" by simp
  with assms(1) Sequence have "wf_json v" "sep_free v" by (auto simp: path_inv_def)
  moreover have "walk_path doc (path @ SEP # k) = Some v"
    using walk_path_snoc [OF _ py_int_sep [OF n(1)], of doc path obj] assms(1) n
    by (simp add: path_inv_def Sequence)
  ultimately show ?thesis by (simp add: path_inv_def)
next
  case (Mapping kvs)
  with assms(2) have kv: "(k, v) \<in> set kvs" by (simp add: child_at_def)
  with assms(1) Mapping have "wf_json v" "sep_free v" "SEP \<notin> set k" "distinct (map fst kvs)"
    by (auto simp: path_inv_def)
  moreover from this kv have "map_of kvs k = Some v" by simp
  ultimately show ?thesis
    using walk_path_snoc [of doc path obj k] assms(1)
    by (simp add: path_inv_def Mapping)
qed (use assms(2) in \<open>simp_all add: child_at_def\<close>)

text \<open>The two instances: the lengths of the result lists, and paths that resolve to values.\<close>

lemma walk_path_root: "walk_path doc ''$'' = Some doc"
  by (simp add: walk_path_def SEP_def)

lemma trace_same_length:
  assumes "length rv = length rp"
  shows "rel_sum (=) (\<lambda>a b. length a = length b)
           (trace ev segs ''VALUE'' obj i path rv) (trace ev segs ''PATH'' obj i path rp)"
  by (rule trace_sim [where okp = "\<lambda>_ _. True" and rel = "\<lambda>a b. length a = length b"])
     (use assms in simp_all)

lemma trace_walks:
  assumes ne: "list_all (\<lambda>s. \<not> extractor_form s) segs"
    and iv: "path_inv doc path obj"
    and r: "list_all2 (\<lambda>v p. \<exists>q. p = Str q \<and> walk_path doc q = Some v) rv rp"
  shows "rel_sum (=) (list_all2 (\<lambda>v p. \<exists>q. p = Str q \<and> walk_path doc q = Some v))
           (trace ev segs ''VALUE'' obj i path rv) (trace ev segs ''PATH'' obj i path rp)"
proof (rule trace_sim [where okp = "path_inv doc"
      and rel = "list_all2 (\<lambda>v p. \<exists>q. p = Str q \<and> walk_path doc q = Some v)"])
  show "path_inv doc path obj" by (rule iv)
  show "list_all2 (\<lambda>v p. \<exists>q. p = Str q \<and> walk_path doc q = Some v) rv rp" by (rule r)
next
  fix path obj rv rp
  assume "path_inv doc path obj"
    and "list_all2 (\<lambda>v p. \<exists>q. p = Str q \<and> walk_path doc q = Some v) rv rp"
  then show "list_all2 (\<lambda>v p. \<exists>q. p = Str q \<and> walk_path doc q = Some v)
               (rv @ [obj]) (rp @ [Str path])"
    by (simp add: list_all2_appendI path_inv_def)
next
  fix path obj k v
  assume "path_inv doc path obj" "child_at obj k v"
  then show "path_inv doc (path @ SEP # k) v" by (rule path_inv_child)
next
  fix path obj i
  assume "i < length segs" "extractor_form (segs ! i)"
  with ne have False by (simp add: list_all_length)
  then show "path_inv doc path (Mapping (field_extract (dict_of obj)
                 (split_on (CHR '','') (butlast (drop 1 (segs ! i))))))" ..
qed

lemma parse_same_length:
  "rel_sum (=) (\<lambda>a b. length a = length b)
     (parse ev segs doc ''VALUE'') (parse ev segs doc ''PATH'')"
  using trace_same_length [of "[]" "[]" ev segs doc 0 "''$''"]
  by (simp add: parse_def)

lemma parse_walks:
  assumes "list_all (\<lambda>s. \<not> extractor_form s) segs" "wf_json doc" "sep_free doc"
  shows "rel_sum (=) (list_all2 (\<lambda>v p. \<exists>q. p = Str q \<and> walk_path doc q = Some v))
           (parse ev segs doc ''VALUE'') (parse ev segs doc ''PATH'')"
proof -
  have "path_inv doc ''$'' doc"
    using assms by (simp add: path_inv_def walk_path_root)
  from trace_walks [OF assms(1) this, of "[]" "[]" ev 0] show ?thesis
    by (simp add: parse_def)
qed

section \<open>Key lists and the field extractor\<close>

text \<open>
  Claim C1. The claim: \<^verbatim>\<open>$[bicycle, scores]\<close> on the document with the keys
  \<^verbatim>\<open>bicycle\<close> and \<^verbatim>\<open>scores\<close> returns both values. In the code the step is
  \<^verbatim>\<open>bicycle, scores\<close>; \<^verbatim>\<open>REP_SELECT_CONTENT\<close> accepts the space after the comma, but
  \<^verbatim>\<open>step.split(",")\<close> keeps it, and the key \<^verbatim>\<open>" scores"\<close> is not in the dict: the only
  result is the value of \<^verbatim>\<open>bicycle\<close>.
\<close>

theorem select_space_loses_key:
  "jsonpath ev subx0 ''$[bicycle, scores]''
     (Mapping [(''bicycle'', Mapping [(''color'', Str ''red'')]),
               (''scores'', Sequence [Num 1, Num 2, Num 3])]) ''VALUE''
   = Inr [Mapping [(''color'', Str ''red'')]]"
  by code_simp

text \<open>
  Claim C4, as stated: \<^verbatim>\<open>$(a,b)\<close> on \<^verbatim>\<open>{"a":1,"c":3}\<close> yields the one result
  \<^verbatim>\<open>{"a":1,"b":null}\<close>. It does not: \<^verbatim>\<open>_parse_expr\<close> strips the root marker only as
  \<^verbatim>\<open>$;\<close>, so the only step is \<^verbatim>\<open>$(a,b)\<close>, which no branch of \<^verbatim>\<open>_trace\<close> matches, and
  there is no result.
\<close>

theorem extractor_without_dot_counterexample:
  "jsonpath no_eval subx0 ''$(a,b)'' (Mapping [(''a'', Num 1), (''c'', Num 3)]) ''VALUE''
   \<noteq> Inr [Mapping [(''a'', Num 1), (''b'', Null)]]"
  by code_simp

text \<open>
  Claim C4, amended: with the dot after the root marker, \<^verbatim>\<open>$.(a,b)\<close> on
  \<^verbatim>\<open>{"a":1,"c":3}\<close> yields exactly one value, the new mapping \<^verbatim>\<open>{"a":1,"b":null}\<close>, and
  the one path is the root path \<^verbatim>\<open>$\<close>: the field extractor adds no segment. Without
  the dot, \<^verbatim>\<open>$(a,b)\<close> compiles to the single step \<^verbatim>\<open>$(a,b)\<close>, and the evaluation
  returns no result, in either mode and without an error.
\<close>

theorem extractor_projects_at_root:
  "jsonpath ev subx0 ''$.(a,b)'' (Mapping [(''a'', Num 1), (''c'', Num 3)]) ''VALUE''
     = Inr [Mapping [(''a'', Num 1), (''b'', Null)]]
   \<and> jsonpath ev subx0 ''$.(a,b)'' (Mapping [(''a'', Num 1), (''c'', Num 3)]) ''PATH''
     = Inr [Str ''$'']
   \<and> fst (compile subx0 ''$.(a,b)'') = Inr [''(a,b)'']
   \<and> fst (compile subx0 ''$(a,b)'') = Inr [''$(a,b)'']
   \<and> jsonpath ev subx0 ''$(a,b)'' (Mapping [(''a'', Num 1), (''c'', Num 3)]) ''VALUE'' = Inr []
   \<and> jsonpath ev subx0 ''$(a,b)'' (Mapping [(''a'', Num 1), (''c'', Num 3)]) ''PATH'' = Inr []"
  by code_simp

section \<open>Steps that match no rule\<close>

text \<open>
  Claim C10. On a list, a step that is a minus sign followed by digits is no
  \<^verbatim>\<open>isdigit\<close> string and does not match \<^verbatim>\<open>REP_SLICE_CONTENT\<close>, which needs a colon; no
  other branch of \<^verbatim>\<open>_trace\<close> takes it, so the call returns with the result list as it
  was and raises nothing.
\<close>

theorem negative_index_no_match:
  assumes i: "i < length segs"
    and step: "segs ! i = CHR ''-'' # ds"
    and ds: "ds \<noteq> []" "\<forall>c \<in> set ds. is_digit c"
  shows "\<not> py_isdigit (segs ! i) \<and> \<not> slice_match (segs ! i)
         \<and> trace ev segs rt (Sequence xs) i path res = Inr res"
proof -
  let ?step = "CHR ''-'' # ds"
  have nd: "\<not> py_isdigit ?step"
    by (simp add: py_isdigit_def is_digit_def)
  have "CHR '':'' \<notin> set ?step"
    using ds(2) by (auto dest: is_digit_not_colon)
  then have "split_on (CHR '':'') ?step = [?step]"
    by (rule split_on_no_sep)
  then have ns: "\<not> slice_match ?step"
    by (simp add: slice_match_def)
  have nodict: "\<not> is_dict (Sequence xs)"
    by (simp add: is_dict_def)
  have pre: "\<not> startswith ?step ''?(''" "\<not> startswith ?step ''/(''" "\<not> startswith ?step ''(''"
    by (simp_all add: startswith_def)
  have ne: "?step \<noteq> ''*''" "?step \<noteq> ''..''"
    by simp_all
  have "trace ev segs rt (Sequence xs) i path res = Inr res"
    using i nd ns nodict pre ne
    by (subst trace.simps) (simp add: step Let_def)
  with nd ns step show ?thesis by simp
qed

theorem negative_index_no_match_witness:
  "(0::nat) < length [''-1''] \<and> [''-1''] ! 0 = CHR ''-'' # ''1'' \<and> ''1'' \<noteq> []
   \<and> list_all is_digit ''1''
   \<and> \<not> py_isdigit ''-1'' \<and> \<not> slice_match ''-1''
   \<and> trace no_eval [''-1''] ''VALUE'' (Sequence [Num 10, Num 20]) 0 ''$'' [] = Inr []"
  using negative_index_no_match [of 0 "[''-1'']" "''1''" no_eval "''VALUE''" "[Num 10, Num 20]" "''$''" "[]"]
  by (simp add: is_digit_def)

section \<open>Filter steps\<close>

lemma filter_step_shape:
  assumes "step = ''?('' @ p @ '')''"
  shows "step \<noteq> ''*''" "step \<noteq> ''..''" "\<not> py_isdigit step" "\<not> slice_match step"
    "\<not> select_match step" "startswith step ''?(''" "endswith step '')''"
    "butlast (drop 2 step) = p"
proof -
  show "step \<noteq> ''*''" "step \<noteq> ''..''" using assms by simp_all
  show "\<not> py_isdigit step" using assms by (simp add: py_isdigit_def is_digit_def)
  obtain w ws where "split_on (CHR '':'') step = (CHR ''?'' # w) # ws"
    using split_on_Cons [of "CHR ''?''" "CHR '':''" "CHR ''('' # p @ '')''"] assms by auto
  then show "\<not> slice_match step"
    by (simp add: slice_match_def slice_part_def is_digit_def)
  obtain w' ws' where "split_on (CHR '','') step = (CHR ''?'' # w') # ws'"
    using split_on_Cons [of "CHR ''?''" "CHR '',''" "CHR ''('' # p @ '')''"] assms by auto
  then show "\<not> select_match step"
    by (simp add: select_match_def select_item_def is_word_char_def split: list.splits)
  show "startswith step ''?(''" using assms by (simp add: startswith_def)
  show "endswith step '')''" using assms by (simp add: endswith_def)
  show "butlast (drop 2 step) = p" using assms by simp
qed

text \<open>
  A filter step whose predicate was rewritten without error traces exactly the children
  on which \<^verbatim>\<open>eval\<close> returns a true value: a child on which \<^verbatim>\<open>eval\<close> raises is dropped
  like one on which the predicate is false, and the exception does not leave
  \<^verbatim>\<open>_filter\<close>. When \<^verbatim>\<open>eval\<close> raises on every child, the step returns without a result and
  without an error. (The step is taken as a filter unless the value is a dict that has
  the whole step as a key. The call of \<^verbatim>\<open>LOG.error\<close> is not part of the model.)
\<close>

theorem filter_fail_open:
  assumes i: "i < length segs"
    and step: "segs ! i = ''?('' @ p @ '')''"
    and sub: "filter_sub p = Inr q"
    and nokey: "map_of (dict_of obj) (segs ! i) = None"
  shows "trace ev segs rt obj i path res =
           traverse_trace ev segs rt
             (filter (\<lambda>(k, v). ev q v = Inr True) (traverse_items obj)) (i + 1) path res
         \<and> ((\<forall>(k, v) \<in> set (traverse_items obj). \<exists>e. ev q v = Inl e) \<longrightarrow>
              trace ev segs rt obj i path res = Inr res)"
proof -
  note sh = filter_step_shape [OF step]
  have eq: "trace ev segs rt obj i path res =
      traverse_trace ev segs rt
        (filter (\<lambda>(k, v). ev q v = Inr True) (traverse_items obj)) (i + 1) path res"
    using i nokey sh sub
    by (subst trace.simps) (simp add: Let_def traverse_filter_eq)
  have "filter (\<lambda>(k, v). ev q v = Inr True) (traverse_items obj) = []"
    if "\<forall>(k, v) \<in> set (traverse_items obj). \<exists>e. ev q v = Inl e"
    using that by (auto simp: filter_empty_conv)
  with eq show ?thesis by simp
qed


theorem filter_fail_open_witness:
  "(0::nat) < length [''?(@.price>5)'']
   \<and> [''?(@.price>5)''] ! 0 = ''?('' @ ''@.price>5'' @ '')''
   \<and> filter_sub ''@.price>5'' = Inr (''__obj['' @ [CHR 0x22] @ ''price'' @ [CHR 0x22] @ '']>5'')
   \<and> map_of (dict_of (Sequence [Mapping [(''title'', Str ''x'')], Num 3])) ([''?(@.price>5)''] ! 0) = None
   \<and> list_all (\<lambda>(k, v). isl (eval_price (''__obj['' @ [CHR 0x22] @ ''price'' @ [CHR 0x22] @ '']>5'') v))
         (traverse_items (Sequence [Mapping [(''title'', Str ''x'')], Num 3]))
   \<and> trace eval_price [''?(@.price>5)''] ''VALUE''
         (Sequence [Mapping [(''title'', Str ''x'')], Num 3]) 0 ''$'' [] = Inr []"
proof -
  let ?q = "''__obj['' @ [CHR 0x22] @ ''price'' @ [CHR 0x22] @ '']>5''"
  let ?obj = "Sequence [Mapping [(''title'', Str ''x'')], Num 3]"
  have h1: "(0::nat) < length [''?(@.price>5)'']" by simp
  have h2: "[''?(@.price>5)''] ! 0 = ''?('' @ ''@.price>5'' @ '')''" by simp
  have h3: "filter_sub ''@.price>5'' = Inr ?q" by code_simp
  have h4: "map_of (dict_of ?obj) ([''?(@.price>5)''] ! 0) = None" by (simp add: dict_of_def)
  have h5: "\<forall>(k, v) \<in> set (traverse_items ?obj). \<exists>e. eval_price ?q v = Inl e"
    by (simp add: traverse_items_def idx_items_def enumerate_py_def eval_price_def upt_rec)
  from filter_fail_open [OF h1 h2 h3 h4, of eval_price "''VALUE''" "''$''" "[]"] h5
  have "trace eval_price [''?(@.price>5)''] ''VALUE'' ?obj 0 ''$'' [] = Inr []"
    by blast
  moreover have "list_all (\<lambda>(k, v). isl (eval_price ?q v)) (traverse_items ?obj)"
    by (simp add: traverse_items_def idx_items_def enumerate_py_def eval_price_def upt_rec)
  ultimately show ?thesis using h1 h2 h3 h4 by blast
qed


text \<open>
  Claim C6. The claim: a filter predicate that fails on a child, such as one that reads a
  field the child does not have, never makes the evaluation raise. In the code a predicate
  with \<^verbatim>\<open>len(@.field)\<close> matches the second alternative of \<^verbatim>\<open>REP_FILTER_CONTENT\<close>, whose
  match has no first group; \<^verbatim>\<open>_f_brackets\<close> reads \<^verbatim>\<open>m.group(1)\<close>, which is \<^verbatim>\<open>None\<close>, and
  \<^verbatim>\<open>None.split\<close> raises AttributeError in \<^verbatim>\<open>_trace\<close>, outside the \<^verbatim>\<open>try\<close> of \<^verbatim>\<open>_filter\<close>:
  the evaluation raises, on a list with a child and on the empty list.
\<close>

theorem filter_len_predicate_raises:
  "jsonpath ev subx0 ''$[?(len(@.missing) > 5)]'' (Sequence [Mapping [(''a'', Num 1)]]) ''VALUE''
     = Inl AttributeError
   \<and> jsonpath ev subx0 ''$[?(len(@.missing) > 5)]'' (Sequence []) ''VALUE'' = Inl AttributeError
   \<and> fst (compile subx0 ''$[?(len(@.missing) > 5)]'') = Inr [''?(len(@.missing) > 5)'']
   \<and> filter_sub ''len(@.missing) > 5'' = Inl AttributeError"
  by code_simp

section \<open>The escape tables across compilations\<close>

text \<open>
  Claim C5. The claim: compiling an expression gives the same steps, or the same failure,
  whatever was compiled before. In the code the tables are the class attribute
  \<^verbatim>\<open>subx\<close>, shared by all compilations and never emptied: in a fresh process
  \<^verbatim>\<open>$.#Q0\<close> fails with IndexError, and after the compilation of \<^verbatim>\<open>$['x']\<close> it compiles to
  the step \<^verbatim>\<open>x\<close>, the literal of the earlier expression.
\<close>

theorem compile_depends_on_history:
  "fst (compile subx0 ''$.#Q0'') = Inl IndexError
   \<and> fst (compile (snd (compile subx0 (''$['' @ [CHR 0x27] @ ''x'' @ [CHR 0x27] @ '']''))) ''$.#Q0'')
     = Inr [''x'']"
  by code_simp

section \<open>Sorting by a missing field\<close>

text \<open>
  Claim C8. The claim: a sorter step over elements of which some lack the sort field does
  not fail. In the code \<^verbatim>\<open>_getattr\<close> gives \<^verbatim>\<open>None\<close> for the missing field, and
  \<^verbatim>\<open>list.sort\<close> then compares \<^verbatim>\<open>None\<close> with the other key, which raises TypeError:
  sorting the two books by \<^verbatim>\<open>price\<close>, one without a price, fails.
\<close>

theorem sorter_missing_field_raises:
  "jsonpath ev subx0 ''$.book[/(price)]''
     (Mapping [(''book'', Sequence [Mapping [(''price'', Num 1)], Mapping [(''title'', Str ''x'')]])])
     ''VALUE''
   = Inl TypeError"
  by code_simp

section \<open>Recursive descent\<close>

text \<open>
  Claim C9. \<open>trace\<close> is a total function: on every document, which as a value of a
  datatype is finite and acyclic, the evaluation ends. For \<^verbatim>\<open>$..name\<close> on a list or dict
  the values are, node by node in the order of the depth-first walk, the value under the
  key \<^verbatim>\<open>name\<close> of each node that is a dict with this key: a node gives at most one
  result, so there are at most as many results as nodes. The calls of \<^verbatim>\<open>_trace\<close> nest,
  below the first call, at most as deep as the number of steps plus the height of the
  document, for any steps.
\<close>

theorem recursive_descent_name:
  assumes "is_list doc \<or> is_dict doc"
  shows "jsonpath ev subx0 ''$..name'' doc ''VALUE''
           = Inr (concat (map (key_value ''name'') (nodes doc)))
         \<and> length (concat (map (key_value ''name'') (nodes doc))) \<le> length (nodes doc)
         \<and> trace_depth ev segs doc 0 \<le> length segs + height doc"
proof -
  have c: "fst (compile subx0 ''$..name'') = Inr [''..'', ''name'']"
    by code_simp
  have "jsonpath ev subx0 ''$..name'' doc ''VALUE''
          = Inr (concat (map (key_value ''name'') (nodes doc)))"
    using assms by (simp add: jsonpath_def c parse_def dots_name)
  moreover have "length (concat (map (key_value ''name'') (nodes doc))) \<le> length (nodes doc)"
    by (rule length_concat_le) (rule key_value_length)
  moreover have "trace_depth ev segs doc 0 \<le> length segs + height doc"
    using depth_bound(1) [of ev segs doc 0] by simp
  ultimately show ?thesis by blast
qed

theorem recursive_descent_name_witness:
  "(is_list (Mapping [(''name'', Num 1), (''c'', Sequence [Mapping [(''name'', Str ''x'')], Num 4])])
    \<or> is_dict (Mapping [(''name'', Num 1), (''c'', Sequence [Mapping [(''name'', Str ''x'')], Num 4])]))
   \<and> jsonpath no_eval subx0 ''$..name''
         (Mapping [(''name'', Num 1), (''c'', Sequence [Mapping [(''name'', Str ''x'')], Num 4])])
         ''VALUE'' = Inr [Num 1, Str ''x'']
   \<and> length (nodes (Mapping [(''name'', Num 1), (''c'', Sequence [Mapping [(''name'', Str ''x'')], Num 4])])) = 6
   \<and> trace_depth no_eval [''..'', ''name'']
         (Mapping [(''name'', Num 1), (''c'', Sequence [Mapping [(''name'', Str ''x'')], Num 4])]) 0
       \<le> 5"
proof -
  let ?doc = "Mapping [(''name'', Num 1), (''c'', Sequence [Mapping [(''name'', Str ''x'')], Num 4])]"
  have h: "is_list ?doc \<or> is_dict ?doc" by (simp add: is_dict_def)
  have v: "concat (map (key_value ''name'') (nodes ?doc)) = [Num 1, Str ''x'']"
    by (simp add: key_value_def)
  have n: "length (nodes ?doc) = 6" by simp
  have d: "length [''..'', ''name''] + height ?doc = 5" by simp
  from recursive_descent_name [OF h, of no_eval "[''..'', ''name'']"] h v n d
  show ?thesis by simp
qed

section \<open>The sorter step\<close>




section \<open>Literals through the compiler\<close>





section \<open>Mode symmetry\<close>

text \<open>
  Claim C2, as stated: for every expression and every accepted document the \<^verbatim>\<open>VALUE\<close>
  and the \<^verbatim>\<open>PATH\<close> result lists have the same length, and walking the document along the
  segments of the i-th path yields the i-th value. The second half fails for a
  field-extractor step: \<^verbatim>\<open>$.(a,b)\<close> on \<^verbatim>\<open>{"a": 1, "c": 3}\<close> returns the new mapping
  \<^verbatim>\<open>{"a": 1, "b": None}\<close> at the unchanged path \<^verbatim>\<open>$\<close>, which resolves to the document
  itself. It also fails for a key that contains the separator: \<^verbatim>\<open>$.*\<close> on
  \<^verbatim>\<open>{"a;b": 1}\<close> returns the value 1 at the path \<^verbatim>\<open>$;a;b\<close>, which resolves to nothing.
\<close>

theorem mode_symmetry_counterexample:
  "jsonpath no_eval subx0 ''$.(a,b)'' (Mapping [(''a'', Num 1), (''c'', Num 3)]) ''VALUE''
     = Inr [Mapping [(''a'', Num 1), (''b'', Null)]]
   \<and> jsonpath no_eval subx0 ''$.(a,b)'' (Mapping [(''a'', Num 1), (''c'', Num 3)]) ''PATH''
     = Inr [Str ''$'']
   \<and> walk_path (Mapping [(''a'', Num 1), (''c'', Num 3)]) ''$''
     = Some (Mapping [(''a'', Num 1), (''c'', Num 3)])
   \<and> Mapping [(''a'', Num 1), (''c'', Num 3)] \<noteq> Mapping [(''a'', Num 1), (''b'', Null)]
   \<and> jsonpath no_eval subx0 ''$.*'' (Mapping [(''a;b'', Num 1)]) ''VALUE'' = Inr [Num 1]
   \<and> jsonpath no_eval subx0 ''$.*'' (Mapping [(''a;b'', Num 1)]) ''PATH'' = Inr [Str ''$;a;b'']
   \<and> walk_path (Mapping [(''a;b'', Num 1)]) ''$;a;b'' = None"
  by code_simp

text \<open>
  Claim C2, amended: for every expression, every document and every content of the escape
  tables, the two modes fail with the same error or return lists of the same length; and
  if no compiled step has the field-extractor form and no key of the document contains
  the separator (the keys of each mapping being distinct, as those of a Python dict are),
  then each entry of the \<^verbatim>\<open>PATH\<close> result is a string that resolves, by walking the
  document along its segments, to the entry of the \<^verbatim>\<open>VALUE\<close> result at the same index.
\<close>

theorem mode_symmetry:
  "(\<forall>e. jsonpath ev sx expr doc ''VALUE'' = Inl e \<longleftrightarrow> jsonpath ev sx expr doc ''PATH'' = Inl e)
   \<and> (\<forall>vs ps. jsonpath ev sx expr doc ''VALUE'' = Inr vs \<and> jsonpath ev sx expr doc ''PATH'' = Inr ps \<longrightarrow>
        length vs = length ps
        \<and> (\<forall>segs. fst (compile sx expr) = Inr segs \<and> list_all (\<lambda>s. \<not> extractor_form s) segs
                  \<and> wf_json doc \<and> sep_free doc \<longrightarrow>
             (\<forall>i < length vs. \<exists>q. ps ! i = Str q \<and> walk_path doc q = Some (vs ! i))))"
proof (cases "fst (compile sx expr)")
  case (Inl e)
  then show ?thesis by (simp add: jsonpath_def)
next
  case (Inr segs)
  then have jp: "\<And>m. jsonpath ev sx expr doc m = parse ev segs doc m"
    by (simp add: jsonpath_def)
  have len: "rel_sum (=) (\<lambda>a b. length a = length b)
     (parse ev segs doc ''VALUE'') (parse ev segs doc ''PATH'')"
    by (rule parse_same_length)
  have err: "parse ev segs doc ''VALUE'' = Inl e \<longleftrightarrow> parse ev segs doc ''PATH'' = Inl e" for e
    using len by (cases "parse ev segs doc ''VALUE''"; cases "parse ev segs doc ''PATH''") auto
  have walk: "\<exists>q. ps ! i = Str q \<and> walk_path doc q = Some (vs ! i)"
    if "parse ev segs doc ''VALUE'' = Inr vs" "parse ev segs doc ''PATH'' = Inr ps"
      "list_all (\<lambda>s. \<not> extractor_form s) segs" "wf_json doc" "sep_free doc" "i < length vs"
    for vs ps i
    using parse_walks [OF that(3,4,5), of ev] that(1,2,6)
    by (auto simp: list_all2_conv_all_nth)
  have leq: "length vs = length ps"
    if "parse ev segs doc ''VALUE'' = Inr vs" "parse ev segs doc ''PATH'' = Inr ps" for vs ps
    using len that by simp
  show ?thesis
    unfolding jp Inr
  proof (intro conjI allI impI, goal_cases)
    case (1 e)
    show ?case by (rule err)
  next
    case (2 vs ps)
    then show ?case using leq by blast
  next
    case (3 vs ps segs' i)
    then have "segs' = segs" by simp
    with 3 show ?case using walk [of vs ps i] by simp
  qed
qed

theorem mode_symmetry_witness:
  "jsonpath no_eval subx0 ''$..name''
     (Mapping [(''name'', Num 1), (''c'', Sequence [Mapping [(''name'', Str ''x'')], Num 4])]) ''VALUE''
     = Inr [Num 1, Str ''x'']
   \<and> jsonpath no_eval subx0 ''$..name''
     (Mapping [(''name'', Num 1), (''c'', Sequence [Mapping [(''name'', Str ''x'')], Num 4])]) ''PATH''
     = Inr [Str ''$;name'', Str ''$;c;0;name'']
   \<and> fst (compile subx0 ''$..name'') = Inr [''..'', ''name'']
   \<and> list_all (\<lambda>s. \<not> extractor_form s) [''..'', ''name'']
   \<and> wf_json (Mapping [(''name'', Num 1), (''c'', Sequence [Mapping [(''name'', Str ''x'')], Num 4])])
   \<and> sep_free (Mapping [(''name'', Num 1), (''c'', Sequence [Mapping [(''name'', Str ''x'')], Num 4])])
   \<and> walk_path (Mapping [(''name'', Num 1), (''c'', Sequence [Mapping [(''name'', Str ''x'')], Num 4])])
        ''$;name'' = Some (Num 1)
   \<and> walk_path (Mapping [(''name'', Num 1), (''c'', Sequence [Mapping [(''name'', Str ''x'')], Num 4])])
        ''$;c;0;name'' = Some (Str ''x'')"
proof -
  define doc where
    "doc = Mapping [(''name'', Num 1), (''c'', Sequence [Mapping [(''name'', Str ''x'')], Num 4])]"
  have v: "jsonpath no_eval subx0 ''$..name'' doc ''VALUE'' = Inr [Num 1, Str ''x'']"
    unfolding doc_def by code_simp
  have p: "jsonpath no_eval subx0 ''$..name'' doc ''PATH'' = Inr [Str ''$;name'', Str ''$;c;0;name'']"
    unfolding doc_def by code_simp
  have c: "fst (compile subx0 ''$..name'') = Inr [''..'', ''name'']"
    by code_simp
  have ne: "list_all (\<lambda>s. \<not> extractor_form s) [''..'', ''name'']"
    by code_simp
  have wf: "wf_json doc" unfolding doc_def by code_simp
  have sf: "sep_free doc" unfolding doc_def by code_simp
  from mode_symmetry [of no_eval subx0 "''$..name''" doc] v p c ne wf sf
  have w: "\<forall>i < length [Num 1, Str ''x''].
             \<exists>q. [Str ''$;name'', Str ''$;c;0;name''] ! i = Str q
                  \<and> walk_path doc q = Some ([Num 1, Str ''x''] ! i)"
    by blast
  from w [rule_format, of 0] have w0: "walk_path doc ''$;name'' = Some (Num 1)" by simp
  from w [rule_format, of 1] have w1: "walk_path doc ''$;c;0;name'' = Some (Str ''x'')" by simp
  show ?thesis
    using v p c ne wf sf w0 w1 unfolding doc_def by (intro conjI)
qed

end
